theory Spec2Isabelle
  imports Main "HOL-Library.Word"
begin

section \<open>Common types\<close>

text \<open>
  \<open>frame_id_t\<close> and \<open>page_id_t\<close> are 32-bit signed integers in the source. No arithmetic
  is done on frame ids; page ids only grow by one per allocation. Both are modelled as
  \<open>int\<close>. Undefined behaviour and aborts of the C++ code are results of the model:
  \<^item> \<open>ContractViolation\<close>: a failed \<open>BUSTUB_ASSERT\<close> (the process aborts);
  \<^item> \<open>InvalidIterator\<close>: \<open>std::list::erase\<close> on an iterator that designates no node of
    the list (a default-constructed or a stale one);
  \<^item> \<open>NullPointer\<close>: a member access through a null \<open>shared_ptr\<close>;
  \<^item> \<open>OutOfBounds\<close>: an index outside the page array.
\<close>

type_synonym frame_id_t = int
type_synonym page_id_t = int

datatype error = ContractViolation | InvalidIterator | NullPointer | OutOfBounds

section \<open>LRU-K replacer (src/buffer/lru\_k\_replacer.cpp)\<close>

text \<open>
  The two \<open>std::list<frame_id_t>\<close> are lists of nodes; a node carries an identity (its
  address) next to the frame id it stores, and a list iterator is the identity of the node
  it designates. \<open>next_node\<close> is the allocator of node identities. The iterator maps are
  partial maps from frame ids to node identities. \<open>curr_size\<close> is a \<open>size_t\<close>; the
  access counts are \<open>size_t\<close> as well and are modelled as \<open>nat\<close> (a counter wraps only
  after \<open>2^64\<close> accesses of one frame).
\<close>

type_synonym node_id = nat

record LRUKReplacer =
  replacer_size :: "64 word"
  lru_k :: nat
  curr_size :: "64 word"
  inf_history_list :: "(node_id \<times> frame_id_t) list"
  history_list :: "(node_id \<times> frame_id_t) list"
  inf_history_iter_map :: "frame_id_t \<rightharpoonup> node_id"
  history_iter_map :: "frame_id_t \<rightharpoonup> node_id"
  count_map :: "frame_id_t \<rightharpoonup> nat"
  non_evictable_set :: "frame_id_t set"
  next_node :: node_id

text \<open>The constructor \<open>LRUKReplacer(num_frames, k)\<close>: every container starts empty.\<close>

definition LRUKReplacer_init :: "64 word \<Rightarrow> nat \<Rightarrow> LRUKReplacer" where
  "LRUKReplacer_init num_frames k =
     \<lparr>replacer_size = num_frames, lru_k = k, curr_size = 0,
      inf_history_list = [], history_list = [],
      inf_history_iter_map = Map.empty, history_iter_map = Map.empty,
      count_map = Map.empty, non_evictable_set = {}, next_node = 0\<rparr>"

text \<open>The frames stored in a list, head first.\<close>

definition frames_of :: "(node_id \<times> frame_id_t) list \<Rightarrow> frame_id_t list" where
  "frames_of l = map snd l"

text \<open>
  \<open>list.erase(it)\<close> for an iterator read from an iterator map: \<open>operator[]\<close> on a missing
  key yields a default-constructed iterator, and erasing through an iterator that
  designates no node of the list is undefined.
\<close>

definition list_erase :: "node_id option \<Rightarrow> (node_id \<times> frame_id_t) list
    \<Rightarrow> error + (node_id \<times> frame_id_t) list" where
  "list_erase it l =
     (case it of
        None \<Rightarrow> Inl InvalidIterator
      | Some i \<Rightarrow>
          (case find (\<lambda>n. fst n = i) l of
             None \<Rightarrow> Inl InvalidIterator
           | Some n \<Rightarrow> Inr (remove1 n l)))"

text \<open>The check of \<open>BUSTUB_ASSERT\<close> at the head of the three methods taking a frame id.\<close>

definition frame_in_range :: "LRUKReplacer \<Rightarrow> frame_id_t \<Rightarrow> bool" where
  "frame_in_range s f \<longleftrightarrow> nat f < unat (replacer_size s) \<and> f \<ge> 0"

text \<open>
  \<open>Evict\<close>: the result is the victim written to \<open>*frame_id\<close> (\<open>None\<close> when the method
  returns false and leaves the out-parameter alone) and the new state.
\<close>

definition Evict :: "LRUKReplacer \<Rightarrow> frame_id_t option \<times> LRUKReplacer" where
  "Evict s =
     (if curr_size s = 0 then (None, s)
      else
        (case find (\<lambda>n. snd n \<notin> non_evictable_set s) (inf_history_list s) of
           Some n \<Rightarrow>
             (Some (snd n),
              s\<lparr>count_map := (count_map s)(snd n := None),
                inf_history_list := remove1 n (inf_history_list s),
                inf_history_iter_map := (inf_history_iter_map s)(snd n := None),
                curr_size := curr_size s - 1\<rparr>)
         | None \<Rightarrow>
             (case find (\<lambda>n. snd n \<notin> non_evictable_set s) (history_list s) of
                Some n \<Rightarrow>
                  (Some (snd n),
                   s\<lparr>count_map := (count_map s)(snd n := None),
                     history_list := remove1 n (history_list s),
                     history_iter_map := (history_iter_map s)(snd n := None),
                     curr_size := curr_size s - 1\<rparr>)
              | None \<Rightarrow> (None, s))))"

definition RecordAccess :: "LRUKReplacer \<Rightarrow> frame_id_t \<Rightarrow> error + LRUKReplacer" where
  "RecordAccess s f =
     (if \<not> frame_in_range s f then Inl ContractViolation
      else
        (case count_map s f of
           None \<Rightarrow>
             Inr (s\<lparr>inf_history_list := inf_history_list s @ [(next_node s, f)],
                    inf_history_iter_map := (inf_history_iter_map s)(f \<mapsto> next_node s),
                    count_map := (count_map s)(f \<mapsto> 1),
                    curr_size := curr_size s + 1,
                    next_node := Suc (next_node s)\<rparr>)
         | Some c \<Rightarrow>
             if c \<ge> lru_k s then
               (case list_erase (history_iter_map s f) (history_list s) of
                  Inl e \<Rightarrow> Inl e
                | Inr l \<Rightarrow>
                    Inr (s\<lparr>history_list := l @ [(next_node s, f)],
                           history_iter_map := (history_iter_map s)(f \<mapsto> next_node s),
                           count_map := (count_map s)(f \<mapsto> c + 1),
                           next_node := Suc (next_node s)\<rparr>))
             else if c + 1 \<ge> lru_k s then
               (case list_erase (inf_history_iter_map s f) (inf_history_list s) of
                  Inl e \<Rightarrow> Inl e
                | Inr l \<Rightarrow>
                    Inr (s\<lparr>count_map := (count_map s)(f \<mapsto> c + 1),
                           inf_history_list := l,
                           history_list := history_list s @ [(next_node s, f)],
                           history_iter_map := (history_iter_map s)(f \<mapsto> next_node s),
                           next_node := Suc (next_node s)\<rparr>))
             else Inr (s\<lparr>count_map := (count_map s)(f \<mapsto> c + 1)\<rparr>)))"

definition SetEvictable :: "LRUKReplacer \<Rightarrow> frame_id_t \<Rightarrow> bool \<Rightarrow> error + LRUKReplacer" where
  "SetEvictable s f set_evictable =
     (if \<not> frame_in_range s f then Inl ContractViolation
      else if count_map s f = None then Inr s
      else
        (let s1 = (if f \<notin> non_evictable_set s \<and> \<not> set_evictable
                   then s\<lparr>non_evictable_set := insert f (non_evictable_set s),
                          curr_size := curr_size s - 1\<rparr>
                   else s);
             s2 = (if f \<in> non_evictable_set s1 \<and> set_evictable
                   then s1\<lparr>non_evictable_set := non_evictable_set s1 - {f},
                           curr_size := curr_size s1 + 1\<rparr>
                   else s1)
         in Inr s2))"

definition Remove :: "LRUKReplacer \<Rightarrow> frame_id_t \<Rightarrow> error + LRUKReplacer" where
  "Remove s f =
     (if \<not> frame_in_range s f then Inl ContractViolation
      else
        (case count_map s f of
           None \<Rightarrow> Inr s
         | Some c \<Rightarrow>
             if f \<in> non_evictable_set s then Inr s
             else if c \<ge> lru_k s then
               (case list_erase (history_iter_map s f) (history_list s) of
                  Inl e \<Rightarrow> Inl e
                | Inr l \<Rightarrow>
                    Inr (s\<lparr>history_list := l,
                           history_iter_map := (history_iter_map s)(f := None),
                           count_map := (count_map s)(f := None),
                           curr_size := curr_size s - 1\<rparr>))
             else
               (case list_erase (inf_history_iter_map s f) (inf_history_list s) of
                  Inl e \<Rightarrow> Inl e
                | Inr l \<Rightarrow>
                    Inr (s\<lparr>inf_history_list := l,
                           inf_history_iter_map := (inf_history_iter_map s)(f := None),
                           count_map := (count_map s)(f := None),
                           curr_size := curr_size s - 1\<rparr>))))"

definition Size :: "LRUKReplacer \<Rightarrow> 64 word" where
  "Size s = curr_size s"

text \<open>
  The calls a client can make, and a run of calls from a state. A call that aborts or runs
  into undefined behaviour ends the run with its error; \<open>Evict\<close> always returns. The
  states a replacer constructed with \<open>(num_frames, k)\<close> can be in are the results of
  \<open>apply_calls (LRUKReplacer_init num_frames k) cs\<close>.
\<close>

datatype replacer_call =
  CallRecordAccess frame_id_t | CallSetEvictable frame_id_t bool | CallRemove frame_id_t | CallEvict

fun apply_call :: "LRUKReplacer \<Rightarrow> replacer_call \<Rightarrow> error + LRUKReplacer" where
  "apply_call s (CallRecordAccess f) = RecordAccess s f"
| "apply_call s (CallSetEvictable f b) = SetEvictable s f b"
| "apply_call s (CallRemove f) = Remove s f"
| "apply_call s CallEvict = Inr (snd (Evict s))"

fun apply_calls :: "LRUKReplacer \<Rightarrow> replacer_call list \<Rightarrow> error + LRUKReplacer" where
  "apply_calls s [] = Inr s"
| "apply_calls s (c # cs) =
     (case apply_call s c of Inl e \<Rightarrow> Inl e | Inr s' \<Rightarrow> apply_calls s' cs)"

text \<open>
  The representation invariant of the replacer: node identities and frames are unique in
  the lists, the lists hold exactly the tracked frames (the keys of \<open>count_map\<close>), a
  stored iterator that designates a node of its list designates the node of its own frame,
  only tracked frames are non-evictable, tracked frames are in range, and \<open>curr_size\<close>
  counts the tracked frames outside the non-evictable set.
\<close>

definition replacer_inv :: "LRUKReplacer \<Rightarrow> bool" where
  "replacer_inv s \<longleftrightarrow>
     distinct (map fst (inf_history_list s)) \<and>
     distinct (map fst (history_list s)) \<and>
     distinct (frames_of (inf_history_list s) @ frames_of (history_list s)) \<and>
     set (frames_of (inf_history_list s)) \<union> set (frames_of (history_list s)) = dom (count_map s) \<and>
     (\<forall>n \<in> set (inf_history_list s) \<union> set (history_list s). fst n < next_node s) \<and>
     (\<forall>f i. inf_history_iter_map s f = Some i \<longrightarrow> i < next_node s) \<and>
     (\<forall>f i. history_iter_map s f = Some i \<longrightarrow> i < next_node s) \<and>
     (\<forall>f i g. inf_history_iter_map s f = Some i \<longrightarrow> (i, g) \<in> set (inf_history_list s) \<longrightarrow> g = f) \<and>
     (\<forall>f i g. history_iter_map s f = Some i \<longrightarrow> (i, g) \<in> set (history_list s) \<longrightarrow> g = f) \<and>
     non_evictable_set s \<subseteq> dom (count_map s) \<and>
     (\<forall>f \<in> dom (count_map s). frame_in_range s f) \<and>
     unat (curr_size s) = card (dom (count_map s) - non_evictable_set s)"

text \<open>
  Times along a run of calls: the positions of the accesses of a frame, the last of them,
  and the position of the access that made the frame tracked most recently (its first
  access since the frame was last evicted or removed, or since the start).
\<close>

definition access_times :: "replacer_call list \<Rightarrow> frame_id_t \<Rightarrow> nat set" where
  "access_times cs f = {i. i < length cs \<and> cs ! i = CallRecordAccess f}"

definition last_access :: "replacer_call list \<Rightarrow> frame_id_t \<Rightarrow> nat" where
  "last_access cs f = Max (access_times cs f)"

definition first_access_times :: "LRUKReplacer \<Rightarrow> replacer_call list \<Rightarrow> frame_id_t \<Rightarrow> nat set" where
  "first_access_times s0 cs f =
     {i. i < length cs \<and> cs ! i = CallRecordAccess f
         \<and> (\<exists>s. apply_calls s0 (take i cs) = Inr s \<and> count_map s f = None)}"

definition first_access :: "LRUKReplacer \<Rightarrow> replacer_call list \<Rightarrow> frame_id_t \<Rightarrow> nat" where
  "first_access s0 cs f = Max (first_access_times s0 cs f)"

text \<open>
  Counts and lists: a tracked frame has been accessed at least once, is on the
  infinite-history list while its count is below \<open>k\<close>, and, when \<open>k\<close> is at least 2, on
  the history list once its count has reached \<open>k\<close>.
\<close>

definition count_inv :: "LRUKReplacer \<Rightarrow> bool" where
  "count_inv s \<longleftrightarrow>
     (\<forall>f c. count_map s f = Some c \<longrightarrow>
        1 \<le> c
        \<and> (c < lru_k s \<longrightarrow> f \<in> set (frames_of (inf_history_list s)))
        \<and> (2 \<le> lru_k s \<and> lru_k s \<le> c \<longrightarrow> f \<in> set (frames_of (history_list s))))"

text \<open>
  The order of the lists after the calls \<open>cs\<close> from \<open>s0\<close>: the history list by last
  access, the infinite-history list by first access, oldest first.
\<close>

definition order_inv :: "LRUKReplacer \<Rightarrow> replacer_call list \<Rightarrow> LRUKReplacer \<Rightarrow> bool" where
  "order_inv s0 cs s \<longleftrightarrow>
     sorted_wrt (\<lambda>f g. last_access cs f < last_access cs g) (frames_of (history_list s))
   \<and> (\<forall>f \<in> set (frames_of (history_list s)). access_times cs f \<noteq> {})
   \<and> sorted_wrt (\<lambda>f g. first_access s0 cs f < first_access s0 cs g) (frames_of (inf_history_list s))
   \<and> (\<forall>f \<in> set (frames_of (inf_history_list s)). first_access_times s0 cs f \<noteq> {})"

text \<open>The state after the accesses \<open>A, B, A\<close> with \<open>A = 0\<close>, \<open>B = 1\<close>, \<open>k = 2\<close> and two frames.\<close>

definition ABA_state :: LRUKReplacer where
  "ABA_state =
     \<lparr>replacer_size = 2, lru_k = 2, curr_size = 2,
      inf_history_list = [(1, 1)], history_list = [(2, 0)],
      inf_history_iter_map = [0 \<mapsto> 0, 1 \<mapsto> 1], history_iter_map = [0 \<mapsto> Suc (Suc 0)],
      count_map = [1 \<mapsto> Suc 0, 0 \<mapsto> Suc (Suc 0)], non_evictable_set = {}, next_node = 3\<rparr>"

section \<open>Buffer pool manager (src/buffer/buffer\_pool\_manager.cpp)\<close>

subsection \<open>Pages and the disk\<close>

text \<open>
  Modelled from the spec: the class \<open>Page\<close> (storage/page/page.h) and the constants
  \<open>BUSTUB_PAGE_SIZE\<close> and \<open>INVALID_PAGE_ID\<close> (common/config.h) are not under src/. A page
  is a byte buffer of \<open>PAGE_SIZE\<close> bytes with the metadata \<open>page_id\<close>, \<open>pin_count\<close>
  and \<open>is_dirty\<close>; \<open>ResetMemory\<close> zeroes the buffer; \<open>INVALID_PAGE_ID\<close> is -1. The
  reader-writer latch of a page plays no part in the functions modelled here.
\<close>

definition PAGE_SIZE :: nat where
  "PAGE_SIZE = 4096"

definition INVALID_PAGE_ID :: page_id_t where
  "INVALID_PAGE_ID = - 1"

record Page =
  data :: "8 word list"
  page_id :: page_id_t
  pin_count :: int
  is_dirty :: bool

definition ResetMemory :: "Page \<Rightarrow> Page" where
  "ResetMemory p = p\<lparr>data := replicate PAGE_SIZE 0\<rparr>"

text \<open>A page as the constructor of the pool leaves it.\<close>

definition empty_page :: Page where
  "empty_page = \<lparr>data = replicate PAGE_SIZE 0, page_id = INVALID_PAGE_ID, pin_count = 0,
     is_dirty = False\<rparr>"

text \<open>
  Modelled from the spec: the \<open>DiskManager\<close> is an external collaborator with
  \<open>ReadPage(page_id, buf)\<close> and \<open>WritePage(page_id, buf)\<close>; a page never written reads as
  zeroes. It is the map \<open>disk\<close> from page ids to page contents. A \<open>DiskRequest\<close> carries
  \<open>is_write_\<close>, the bytes of the buffer \<open>data_\<close> points to (for a read, the bytes
  delivered) and \<open>page_id_\<close>.
\<close>

datatype DiskRequest = DiskRequest (is_write: bool) (req_data: "8 word list") (req_page_id: page_id_t)

definition zeroed_disk :: "page_id_t \<Rightarrow> 8 word list" where
  "zeroed_disk = (\<lambda>_. replicate PAGE_SIZE 0)"

subsection \<open>The pool\<close>

text \<open>
  The members of \<open>BufferPoolManager\<close>, the disk behind its scheduler, and two logs:
  \<open>requests\<close> holds the disk requests the worker has processed, oldest first, and
  \<open>deallocated\<close> the page ids passed to \<open>DeallocatePage\<close> (declared in the header, not
  under src/, where it is an empty function).
\<close>

record BufferPoolManager =
  pool_size :: nat
  pages :: "Page list"
  free_list :: "frame_id_t list"
  page_table :: "page_id_t \<rightharpoonup> frame_id_t"
  replacer :: LRUKReplacer
  next_page_id :: page_id_t
  disk :: "page_id_t \<Rightarrow> 8 word list"
  requests :: "DiskRequest list"
  deallocated :: "page_id_t list"

text \<open>
  The constructor: \<open>pool_size\<close> fresh pages, a replacer for \<open>(pool_size, replacer_k)\<close>,
  every frame in the free list in increasing order, and page ids allocated from 0.
\<close>

definition BufferPoolManager_init :: "nat \<Rightarrow> (page_id_t \<Rightarrow> 8 word list) \<Rightarrow> nat \<Rightarrow> BufferPoolManager" where
  "BufferPoolManager_init n disk_manager replacer_k =
     \<lparr>pool_size = n, pages = replicate n empty_page,
      free_list = map int [0 ..< n], page_table = Map.empty,
      replacer = LRUKReplacer_init (of_nat n) replacer_k,
      next_page_id = 0, disk = disk_manager, requests = [], deallocated = []\<rparr>"

text \<open>
  \<open>DiskScheduler::Schedule\<close> followed by \<open>future.get()\<close>: the single worker thread takes
  the request off the queue, calls \<open>WritePage\<close> or \<open>ReadPage\<close> and fulfils the promise;
  the caller blocks on the future while it holds the pool latch, so the request is
  processed before the pool does anything else. A read fills the data of frame \<open>f\<close>.
\<close>

definition schedule_write :: "BufferPoolManager \<Rightarrow> 8 word list \<Rightarrow> page_id_t \<Rightarrow> BufferPoolManager" where
  "schedule_write s d pid =
     s\<lparr>disk := (disk s)(pid := d), requests := requests s @ [DiskRequest True d pid]\<rparr>"

definition schedule_read :: "BufferPoolManager \<Rightarrow> frame_id_t \<Rightarrow> page_id_t \<Rightarrow> BufferPoolManager" where
  "schedule_read s f pid =
     s\<lparr>pages := (pages s)[nat f := (pages s ! nat f)\<lparr>data := disk s pid\<rparr>],
       requests := requests s @ [DiskRequest False (disk s pid) pid]\<rparr>"

definition frame_valid :: "BufferPoolManager \<Rightarrow> frame_id_t \<Rightarrow> bool" where
  "frame_valid s f \<longleftrightarrow> 0 \<le> f \<and> nat f < length (pages s)"

text \<open>
  \<open>AllocatePage\<close> returns \<open>next_page_id_++\<close>. The counter is a \<open>std::atomic\<close> of the
  32-bit signed \<open>page_id_t\<close> (both declared in headers that are not under src/), whose
  increment wraps from 2147483647 to -2147483648.
\<close>

definition AllocatePage :: "BufferPoolManager \<Rightarrow> page_id_t \<times> BufferPoolManager" where
  "AllocatePage s =
     (next_page_id s,
      s\<lparr>next_page_id := (if next_page_id s = 2147483647 then - 2147483648
                         else next_page_id s + 1)\<rparr>)"

definition DeallocatePage :: "BufferPoolManager \<Rightarrow> page_id_t \<Rightarrow> BufferPoolManager" where
  "DeallocatePage s pid = s\<lparr>deallocated := deallocated s @ [pid]\<rparr>"

text \<open>
  The frame acquisition, the same text in \<open>NewPage\<close> (lines 74 to 89) and in \<open>FetchPage\<close>
  (lines 114 to 129): the back of the free list, else a victim of the replacer, whose bytes
  are written to disk when it is dirty and whose page id leaves the page table; no frame
  when the method returns \<open>nullptr\<close>. The methods index \<open>pages_\<close> with the frame
  right away; a frame outside the array is \<open>OutOfBounds\<close>.
\<close>

definition acquire_frame :: "BufferPoolManager \<Rightarrow> error + (frame_id_t option \<times> BufferPoolManager)" where
  "acquire_frame s =
     (if free_list s \<noteq> [] then
        (let f = last (free_list s); s1 = s\<lparr>free_list := butlast (free_list s)\<rparr>
         in if frame_valid s f then Inr (Some f, s1) else Inl OutOfBounds)
      else
        (case Evict (replacer s) of
           (Some f, r) \<Rightarrow>
             if \<not> frame_valid s f then Inl OutOfBounds
             else
               (let s1 = s\<lparr>replacer := r\<rparr>;
                    victim = pages s1 ! nat f;
                    s2 = (if is_dirty victim then schedule_write s1 (data victim) (page_id victim)
                          else s1)
                in Inr (Some f, s2\<lparr>page_table := (page_table s2)(page_id victim := None)\<rparr>))
         | (None, r) \<Rightarrow> Inr (None, s\<lparr>replacer := r\<rparr>)))"

text \<open>
  \<open>RecordAccess(frame_id)\<close> followed by \<open>SetEvictable(frame_id, false)\<close>, the pair of
  replacer calls that ends \<open>NewPage\<close> and both paths of \<open>FetchPage\<close>.
\<close>

definition pin_in_replacer :: "BufferPoolManager \<Rightarrow> frame_id_t \<Rightarrow> error + BufferPoolManager" where
  "pin_in_replacer s f =
     (case RecordAccess (replacer s) f of
        Inl e \<Rightarrow> Inl e
      | Inr r1 \<Rightarrow>
          (case SetEvictable r1 f False of
             Inl e \<Rightarrow> Inl e
           | Inr r2 \<Rightarrow> Inr (s\<lparr>replacer := r2\<rparr>)))"

text \<open>
  \<open>NewPage(page_id_t *page_id)\<close>: the argument \<open>out\<close> is what \<open>*page_id\<close> holds before
  the call; the result is the frame of the returned page (\<open>None\<close> for \<open>nullptr\<close>), what
  \<open>*page_id\<close> holds after the call, and the new state.
\<close>

definition NewPage :: "BufferPoolManager \<Rightarrow> page_id_t
    \<Rightarrow> error + (frame_id_t option \<times> page_id_t \<times> BufferPoolManager)" where
  "NewPage s out =
     (case acquire_frame s of
        Inl e \<Rightarrow> Inl e
      | Inr (None, s1) \<Rightarrow> Inr (None, out, s1)
      | Inr (Some f, s1) \<Rightarrow>
          (let (pid, s2) = AllocatePage s1;
               s3 = s2\<lparr>pages := (pages s2)[nat f :=
                      (ResetMemory (pages s2 ! nat f))
                        \<lparr>page_id := pid, pin_count := 1, is_dirty := False\<rparr>]\<rparr>
           in case pin_in_replacer s3 f of
                Inl e \<Rightarrow> Inl e
              | Inr s4 \<Rightarrow> Inr (Some f, pid, s4\<lparr>page_table := (page_table s4)(pid \<mapsto> f)\<rparr>)))"

definition FetchPage :: "BufferPoolManager \<Rightarrow> page_id_t
    \<Rightarrow> error + (frame_id_t option \<times> BufferPoolManager)" where
  "FetchPage s pid =
     (case page_table s pid of
        Some f \<Rightarrow>
          if \<not> frame_valid s f then Inl OutOfBounds
          else
            (let s1 = s\<lparr>pages := (pages s)[nat f :=
                          (pages s ! nat f)\<lparr>pin_count := pin_count (pages s ! nat f) + 1\<rparr>]\<rparr>
             in case pin_in_replacer s1 f of
                  Inl e \<Rightarrow> Inl e
                | Inr s2 \<Rightarrow> Inr (Some f, s2))
      | None \<Rightarrow>
          (case acquire_frame s of
             Inl e \<Rightarrow> Inl e
           | Inr (None, s1) \<Rightarrow> Inr (None, s1)
           | Inr (Some f, s1) \<Rightarrow>
               (let s2 = s1\<lparr>pages := (pages s1)[nat f :=
                              (ResetMemory (pages s1 ! nat f))
                                \<lparr>page_id := pid, pin_count := 1, is_dirty := False\<rparr>]\<rparr>;
                    s3 = schedule_read s2 f (page_id (pages s2 ! nat f))
                in case pin_in_replacer s3 f of
                     Inl e \<Rightarrow> Inl e
                   | Inr s4 \<Rightarrow> Inr (Some f, s4\<lparr>page_table := (page_table s4)(pid \<mapsto> f)\<rparr>))))"

definition UnpinPage :: "BufferPoolManager \<Rightarrow> page_id_t \<Rightarrow> bool
    \<Rightarrow> error + (bool \<times> BufferPoolManager)" where
  "UnpinPage s pid dirty =
     (case page_table s pid of
        None \<Rightarrow> Inr (False, s)
      | Some f \<Rightarrow>
          if \<not> frame_valid s f then Inl OutOfBounds
          else if pin_count (pages s ! nat f) \<le> 0 then Inr (False, s)
          else
            (let p1 = (pages s ! nat f)\<lparr>pin_count := pin_count (pages s ! nat f) - 1\<rparr>;
                 p2 = (if dirty then p1\<lparr>is_dirty := True\<rparr> else p1);
                 s1 = s\<lparr>pages := (pages s)[nat f := p2]\<rparr>
             in if pin_count p2 \<le> 0 then
                  (case SetEvictable (replacer s1) f True of
                     Inl e \<Rightarrow> Inl e
                   | Inr r \<Rightarrow> Inr (True, s1\<lparr>replacer := r\<rparr>))
                else Inr (True, s1)))"

definition FlushPage :: "BufferPoolManager \<Rightarrow> page_id_t \<Rightarrow> error + (bool \<times> BufferPoolManager)" where
  "FlushPage s pid =
     (if pid = INVALID_PAGE_ID then Inr (False, s)
      else
        (case page_table s pid of
           None \<Rightarrow> Inr (False, s)
         | Some f \<Rightarrow>
             if \<not> frame_valid s f then Inl OutOfBounds
             else
               (let p = pages s ! nat f;
                    s1 = schedule_write s (data p) (page_id p)
                in Inr (True, s1\<lparr>pages := (pages s1)[nat f := p\<lparr>is_dirty := False\<rparr>]\<rparr>))))"

text \<open>\<open>FlushAllPages\<close>: the loop over the frames \<open>0, ..., pool_size - 1\<close>.\<close>

fun flush_frames :: "BufferPoolManager \<Rightarrow> nat list \<Rightarrow> error + BufferPoolManager" where
  "flush_frames s [] = Inr s"
| "flush_frames s (i # is) =
     (if i < length (pages s) then
        (case FlushPage s (page_id (pages s ! i)) of
           Inl e \<Rightarrow> Inl e
         | Inr (b, s1) \<Rightarrow> flush_frames s1 is)
      else Inl OutOfBounds)"

definition FlushAllPages :: "BufferPoolManager \<Rightarrow> error + BufferPoolManager" where
  "FlushAllPages s = flush_frames s [0 ..< pool_size s]"

definition DeletePage :: "BufferPoolManager \<Rightarrow> page_id_t \<Rightarrow> error + (bool \<times> BufferPoolManager)" where
  "DeletePage s pid =
     (case page_table s pid of
        None \<Rightarrow> Inr (True, s)
      | Some f \<Rightarrow>
          if \<not> frame_valid s f then Inl OutOfBounds
          else if pin_count (pages s ! nat f) > 0 then Inr (False, s)
          else
            (case Remove (replacer s) f of
               Inl e \<Rightarrow> Inl e
             | Inr r \<Rightarrow>
                 (let s1 = s\<lparr>replacer := r, page_table := (page_table s)(pid := None),
                             free_list := free_list s @ [f]\<rparr>;
                      s2 = s1\<lparr>pages := (pages s1)[nat f :=
                             (ResetMemory (pages s1 ! nat f))
                               \<lparr>pin_count := 0, page_id := INVALID_PAGE_ID, is_dirty := False\<rparr>]\<rparr>
                  in Inr (True, DeallocatePage s2 pid))))"

text \<open>
  The representation invariant of the pool: the replacer satisfies its own invariant and
  was made for as many frames as the array \<open>pages_\<close> has, which is \<open>pool_size_\<close>.
\<close>

definition pool_inv :: "BufferPoolManager \<Rightarrow> bool" where
  "pool_inv s \<longleftrightarrow>
     replacer_inv (replacer s)
   \<and> unat (replacer_size (replacer s)) = length (pages s)
   \<and> length (pages s) = pool_size s"

subsection \<open>Clients of the pool\<close>

text \<open>
  A client writes bytes into a page through the \<open>Page\<close> pointer it got from \<open>NewPage\<close> or
  \<open>FetchPage\<close>: \<open>write_bytes\<close> stores \<open>bs\<close> from offset \<open>off\<close> on (within the buffer) in
  the frame that holds page \<open>pid\<close>.
\<close>

fun store_bytes :: "8 word list \<Rightarrow> nat \<Rightarrow> 8 word list \<Rightarrow> 8 word list" where
  "store_bytes d off [] = d"
| "store_bytes d off (b # bs) = store_bytes (d[off := b]) (Suc off) bs"

definition write_bytes :: "BufferPoolManager \<Rightarrow> page_id_t \<Rightarrow> nat \<Rightarrow> 8 word list \<Rightarrow> BufferPoolManager" where
  "write_bytes s pid off bs =
     (case page_table s pid of
        None \<Rightarrow> s
      | Some f \<Rightarrow>
          s\<lparr>pages := (pages s)[nat f :=
               (pages s ! nat f)\<lparr>data := store_bytes (data (pages s ! nat f)) off bs\<rparr>]\<rparr>)"

text \<open>
  A run of client calls. \<open>NewPage\<close> is called with \<open>*page_id\<close> holding
  \<open>INVALID_PAGE_ID\<close>. Each call leaves its result in the list of results: the frame of the
  returned page (and the page id written by \<open>NewPage\<close>), or the returned boolean.
\<close>

datatype pool_call =
    CallNewPage
  | CallFetchPage page_id_t
  | CallUnpinPage page_id_t bool
  | CallFlushPage page_id_t
  | CallDeletePage page_id_t
  | CallWriteBytes page_id_t nat "8 word list"

datatype pool_result =
    NewPageResult "frame_id_t option" page_id_t
  | PageResult "frame_id_t option"
  | BoolResult bool
  | NoResult

fun apply_pool_call :: "BufferPoolManager \<Rightarrow> pool_call \<Rightarrow> error + (pool_result \<times> BufferPoolManager)" where
  "apply_pool_call s CallNewPage =
     (case NewPage s INVALID_PAGE_ID of
        Inl e \<Rightarrow> Inl e | Inr (r, pid, s') \<Rightarrow> Inr (NewPageResult r pid, s'))"
| "apply_pool_call s (CallFetchPage pid) =
     (case FetchPage s pid of Inl e \<Rightarrow> Inl e | Inr (r, s') \<Rightarrow> Inr (PageResult r, s'))"
| "apply_pool_call s (CallUnpinPage pid dirty) =
     (case UnpinPage s pid dirty of Inl e \<Rightarrow> Inl e | Inr (b, s') \<Rightarrow> Inr (BoolResult b, s'))"
| "apply_pool_call s (CallFlushPage pid) =
     (case FlushPage s pid of Inl e \<Rightarrow> Inl e | Inr (b, s') \<Rightarrow> Inr (BoolResult b, s'))"
| "apply_pool_call s (CallDeletePage pid) =
     (case DeletePage s pid of Inl e \<Rightarrow> Inl e | Inr (b, s') \<Rightarrow> Inr (BoolResult b, s'))"
| "apply_pool_call s (CallWriteBytes pid off bs) = Inr (NoResult, write_bytes s pid off bs)"

fun apply_pool_calls :: "BufferPoolManager \<Rightarrow> pool_call list
    \<Rightarrow> error + (pool_result list \<times> BufferPoolManager)" where
  "apply_pool_calls s [] = Inr ([], s)"
| "apply_pool_calls s (c # cs) =
     (case apply_pool_call s c of
        Inl e \<Rightarrow> Inl e
      | Inr (r, s1) \<Rightarrow>
          (case apply_pool_calls s1 cs of
             Inl e \<Rightarrow> Inl e
           | Inr (rs, s2) \<Rightarrow> Inr (r # rs, s2)))"

text \<open>The results of a run, without the final state.\<close>

definition pool_results :: "BufferPoolManager \<Rightarrow> pool_call list \<Rightarrow> error + pool_result list" where
  "pool_results s cs = map_sum id fst (apply_pool_calls s cs)"

section \<open>Copy-on-write trie (src/primer/trie.cpp)\<close>

subsection \<open>Nodes as values\<close>

text \<open>
  Modelled from the spec: the classes \<open>TrieNode\<close>, \<open>TrieNodeWithValue<T>\<close> and \<open>Trie\<close>
  are declared in primer/trie.h, which is not under src/. A node carries the map
  \<open>children_\<close> from bytes to child nodes and the flag \<open>is_value_node_\<close>; a
  \<open>TrieNodeWithValue<T>\<close> is a node whose flag is set and which owns a payload of type
  \<open>T\<close>; \<open>Clone\<close> copies the map (and the payload pointer of a value node); a \<open>Trie\<close>
  holds the pointer \<open>root_\<close>, null for the empty trie.

  The payload types are those \<open>Put\<close> and \<open>Get\<close> are instantiated for at the end of
  trie.cpp. A payload carries its type, so that the \<open>dynamic_cast\<close> of \<open>Get<T>\<close>
  succeeds exactly on a payload of type \<open>T\<close>.

  In this first model a node is a value: a \<open>shared_ptr<const TrieNode>\<close> is the tree
  below it. The second model, further down, keeps the nodes in a store and follows every
  write.
\<close>

datatype payload =
    UInt32 "32 word"
  | UInt64 "64 word"
  | String string
  | Integer "32 word option"
  | MoveBlocked bool

datatype value_type = T_uint32 | T_uint64 | T_string | T_Integer | T_MoveBlocked

fun type_of :: "payload \<Rightarrow> value_type" where
  "type_of (UInt32 _) = T_uint32"
| "type_of (UInt64 _) = T_uint64"
| "type_of (String _) = T_string"
| "type_of (Integer _) = T_Integer"
| "type_of (MoveBlocked _) = T_MoveBlocked"

datatype TrieNode = TrieNode (children: "char \<Rightarrow> TrieNode option") (node_value: "payload option")

datatype Trie = Trie (root: "TrieNode option")

definition is_value_node :: "TrieNode \<Rightarrow> bool" where
  "is_value_node n \<longleftrightarrow> node_value n \<noteq> None"

text \<open>\<open>children_.empty()\<close> and \<open>children_.size()\<close>.\<close>

definition children_empty :: "TrieNode \<Rightarrow> bool" where
  "children_empty n \<longleftrightarrow> children n = Map.empty"

definition children_size :: "TrieNode \<Rightarrow> nat" where
  "children_size n = card (dom (children n))"

text \<open>\<open>std::make_shared<TrieNode>()\<close>: no children, no value.\<close>

definition new_TrieNode :: TrieNode where
  "new_TrieNode = TrieNode Map.empty None"

subsection \<open>Get\<close>

text \<open>The loop of \<open>Get\<close> (and of \<open>Remove\<close>) that follows the bytes of the key from a node.\<close>

fun walk :: "TrieNode \<Rightarrow> string \<Rightarrow> TrieNode option" where
  "walk n [] = Some n"
| "walk n (c # cs) = (case children n c of None \<Rightarrow> None | Some ch \<Rightarrow> walk ch cs)"

text \<open>
  \<open>Get<T>(key)\<close>: \<open>None\<close> is the null pointer; otherwise the payload the returned pointer
  designates.
\<close>

definition Get :: "value_type \<Rightarrow> Trie \<Rightarrow> string \<Rightarrow> payload option" where
  "Get T t key =
     (case root t of
        None \<Rightarrow> None
      | Some r \<Rightarrow>
          (case walk r key of
             None \<Rightarrow> None
           | Some n \<Rightarrow>
               (case node_value n of
                  None \<Rightarrow> None
                | Some v \<Rightarrow> if type_of v = T then Some v else None)))"

subsection \<open>Put\<close>

text \<open>
  The copy-on-write loop of \<open>Put\<close> from a freshly cloned node \<open>p\<close>: the child on the path
  is cloned, or created when missing, stored in \<open>p\<close> and visited next. After the last byte
  the value node takes over the children of the node the loop ended in (when it has any)
  and replaces it in its parent \<open>pre_node\<close>. The result is \<open>p\<close> after all these writes.
\<close>

fun put_path :: "TrieNode \<Rightarrow> string \<Rightarrow> payload \<Rightarrow> TrieNode" where
  "put_path p [] v = p"
| "put_path p [c] v =
     (let new_node = (case children p c of Some ch \<Rightarrow> ch | None \<Rightarrow> new_TrieNode);
          node = TrieNode (if \<not> children_empty new_node then children new_node else Map.empty) (Some v)
      in TrieNode ((children p)(c \<mapsto> node)) (node_value p))"
| "put_path p (c # cs) v =
     (let new_node = (case children p c of Some ch \<Rightarrow> ch | None \<Rightarrow> new_TrieNode)
      in TrieNode ((children p)(c \<mapsto> put_path new_node cs v)) (node_value p))"

definition Put :: "Trie \<Rightarrow> string \<Rightarrow> payload \<Rightarrow> Trie" where
  "Put t key v =
     (case root t of
        None \<Rightarrow>
          Trie (Some (foldr (\<lambda>c node. TrieNode [c \<mapsto> node] None) key (TrieNode Map.empty (Some v))))
      | Some r \<Rightarrow>
          if key = [] then Trie (Some (TrieNode (children r) (Some v)))
          else Trie (Some (put_path r key v)))"

subsection \<open>Remove\<close>

text \<open>
  The first loop of \<open>Remove\<close>: the nodes on the path of the key, the root first; \<open>None\<close>
  when a byte has no child, where the method returns \<open>*this\<close>.
\<close>

fun collect_path :: "TrieNode \<Rightarrow> string \<Rightarrow> TrieNode list option" where
  "collect_path n [] = Some [n]"
| "collect_path n (c # cs) =
     (case children n c of
        None \<Rightarrow> None
      | Some ch \<Rightarrow> map_option ((#) n) (collect_path ch cs))"

text \<open>
  The backward loop taken when the last node of the path has no children. It visits the
  ancestors from the parent of the last node up to the root, each with the byte
  \<open>key[k_idx]\<close> of the edge below it, and carries \<open>clone_node\<close> and \<open>copy_rest\<close>.
\<close>

fun prune_loop :: "(TrieNode \<times> char) list \<Rightarrow> TrieNode \<Rightarrow> bool \<Rightarrow> TrieNode" where
  "prune_loop [] clone_node copy_rest = clone_node"
| "prune_loop ((it, c) # rest) clone_node copy_rest =
     (if (is_value_node it \<or> children_size it > 1) \<and> \<not> copy_rest then
        prune_loop rest (TrieNode ((children it)(c := None)) (node_value it)) True
      else if copy_rest then
        prune_loop rest (TrieNode ((children it)(c \<mapsto> clone_node)) (node_value it)) copy_rest
      else prune_loop rest clone_node copy_rest)"

text \<open>The backward loop taken when the last node of the path has children.\<close>

fun relink_loop :: "(TrieNode \<times> char) list \<Rightarrow> TrieNode \<Rightarrow> TrieNode" where
  "relink_loop [] clone_node = clone_node"
| "relink_loop ((it, c) # rest) clone_node =
     relink_loop rest (TrieNode ((children it)(c \<mapsto> clone_node)) (node_value it))"

text \<open>
  \<open>Remove(key)\<close>. The method reads \<open>node->children_\<close> of the root in its first loop, or
  \<open>path.back()->children_\<close> after it, without a test for a null root. The ancestors are
  paired with the bytes of the key and visited in reverse.
\<close>

definition Remove_key :: "Trie \<Rightarrow> string \<Rightarrow> error + Trie" where
  "Remove_key t key =
     (case root t of
        None \<Rightarrow> Inl NullPointer
      | Some r \<Rightarrow>
          (case collect_path r key of
             None \<Rightarrow> Inr t
           | Some path \<Rightarrow>
               (let ancestors = rev (zip (butlast path) key);
                    clone_node =
                      (if children_empty (last path) then prune_loop ancestors new_TrieNode False
                       else
                         relink_loop ancestors
                           (if is_value_node (last path) then TrieNode (children (last path)) None
                            else new_TrieNode))
                in if children_empty clone_node \<and> \<not> is_value_node clone_node then Inr (Trie None)
                   else Inr (Trie (Some clone_node)))))"

subsection \<open>What the specification says of a trie\<close>

text \<open>A key is present when its path ends in a value node, whatever the type of the value.\<close>

definition present :: "Trie \<Rightarrow> string \<Rightarrow> bool" where
  "present t key \<longleftrightarrow> (\<exists>T. Get T t key \<noteq> None)"

text \<open>Every leaf is a value node: no path ends in a node with neither children nor a value.\<close>

definition node_no_dangling :: "TrieNode \<Rightarrow> bool" where
  "node_no_dangling r \<longleftrightarrow>
     (\<forall>key n. walk r key = Some n \<longrightarrow> children_empty n \<longrightarrow> is_value_node n)"

definition no_dangling :: "Trie \<Rightarrow> bool" where
  "no_dangling t \<longleftrightarrow> (case root t of None \<Rightarrow> True | Some r \<Rightarrow> node_no_dangling r)"

text \<open>
  The removal of a present key in the words of the specification: the node of the key
  loses its value if it has children and is deleted otherwise; a deleted child is taken
  out of its parent, and a parent left with neither a value nor a child is deleted in
  turn. \<open>None\<close> is a deleted node.
\<close>

fun remove_spec :: "TrieNode \<Rightarrow> string \<Rightarrow> TrieNode option" where
  "remove_spec n [] = (if children_empty n then None else Some (TrieNode (children n) None))"
| "remove_spec n (c # cs) =
     (case children n c of
        None \<Rightarrow> Some n
      | Some ch \<Rightarrow>
          (case remove_spec ch cs of
             Some ch' \<Rightarrow> Some (TrieNode ((children n)(c \<mapsto> ch')) (node_value n))
           | None \<Rightarrow>
               if is_value_node n \<or> (children n)(c := None) \<noteq> Map.empty
               then Some (TrieNode ((children n)(c := None)) (node_value n))
               else None))"

text \<open>The tries built from the empty trie by \<open>Put\<close> and \<open>Remove\<close> calls that return.\<close>

inductive trie_reachable :: "Trie \<Rightarrow> bool" where
  reach_empty: "trie_reachable (Trie None)"
| reach_Put: "trie_reachable t \<Longrightarrow> trie_reachable (Put t key v)"
| reach_Remove: "trie_reachable t \<Longrightarrow> Remove_key t key = Inr t' \<Longrightarrow> trie_reachable t'"

text \<open>The trie holding \<open>"abc"\<close>, \<open>"ab"\<close> and \<open>"abcd"\<close>, inserted in this order.\<close>

definition example_trie :: Trie where
  "example_trie =
     Put (Put (Put (Trie None) ''abc'' (UInt32 1)) ''ab'' (UInt32 2)) ''abcd'' (UInt32 3)"

subsection \<open>Nodes in a store\<close>

text \<open>
  The second model of \<open>Put\<close> keeps the nodes in a store and follows every allocation and
  every write of the method, so that what \<open>Put\<close> does to nodes shared with the old trie
  can be stated. The store is the list of the nodes allocated so far and an address is an
  index into it: \<open>make_shared\<close> and \<open>Clone\<close> append a node. A \<open>shared_ptr\<close> keeps its
  node alive, so the pointers of a trie are addresses of the store (\<open>store_closed\<close>,
  \<open>root_valid\<close>); memory that is given back is not modelled.
\<close>

type_synonym addr = nat

record cell =
  cell_children :: "char \<Rightarrow> addr option"
  cell_value :: "payload option"

type_synonym store = "cell list"

definition alloc :: "store \<Rightarrow> cell \<Rightarrow> store \<times> addr" where
  "alloc h c = (h @ [c], length h)"

text \<open>The assignments \<open>a->children_ = cs\<close> and \<open>a->children_[c] = b\<close>.\<close>

definition set_children :: "store \<Rightarrow> addr \<Rightarrow> (char \<Rightarrow> addr option) \<Rightarrow> store" where
  "set_children h a cs = h[a := (h ! a)\<lparr>cell_children := cs\<rparr>]"

definition set_child :: "store \<Rightarrow> addr \<Rightarrow> char \<Rightarrow> addr \<Rightarrow> store" where
  "set_child h a c b = set_children h a ((cell_children (h ! a))(c \<mapsto> b))"

definition store_closed :: "store \<Rightarrow> bool" where
  "store_closed h \<longleftrightarrow> (\<forall>a c b. a < length h \<longrightarrow> cell_children (h ! a) c = Some b \<longrightarrow> b < length h)"

definition root_valid :: "store \<Rightarrow> addr option \<Rightarrow> bool" where
  "root_valid h r \<longleftrightarrow> (case r of None \<Rightarrow> True | Some a \<Rightarrow> a < length h)"

fun walk_store :: "store \<Rightarrow> addr \<Rightarrow> string \<Rightarrow> addr option" where
  "walk_store h a [] = Some a"
| "walk_store h a (c # cs) =
     (case cell_children (h ! a) c of None \<Rightarrow> None | Some b \<Rightarrow> walk_store h b cs)"

definition Get_store :: "value_type \<Rightarrow> store \<Rightarrow> addr option \<Rightarrow> string \<Rightarrow> payload option" where
  "Get_store T h r key =
     (case r of
        None \<Rightarrow> None
      | Some a \<Rightarrow>
          (case walk_store h a key of
             None \<Rightarrow> None
           | Some n \<Rightarrow>
               (case cell_value (h ! n) of
                  None \<Rightarrow> None
                | Some v \<Rightarrow> if type_of v = T then Some v else None)))"

text \<open>
  The loop of \<open>Put\<close> on a null root, over the key from its last byte to its first: each
  round allocates a node whose only child is the node of the round before.
\<close>

fun chain_loop :: "store \<Rightarrow> addr \<Rightarrow> string \<Rightarrow> store \<times> addr" where
  "chain_loop h node [] = (h, node)"
| "chain_loop h node (c # cs) =
     (let (h1, new_node) = alloc h \<lparr>cell_children = [c \<mapsto> node], cell_value = None\<rparr>
      in chain_loop h1 new_node cs)"

text \<open>
  The copy-on-write loop: \<open>p\<close> is the clone visited, \<open>pre_node\<close> its parent. The child of
  \<open>p\<close> under the byte is cloned, or a node is created, and stored in \<open>p\<close>.
\<close>

fun cow_loop :: "store \<Rightarrow> addr \<Rightarrow> addr \<Rightarrow> string \<Rightarrow> store \<times> addr \<times> addr" where
  "cow_loop h p pre_node [] = (h, p, pre_node)"
| "cow_loop h p pre_node (c # cs) =
     (let (h1, new_node) =
            (case cell_children (h ! p) c of
               Some ch \<Rightarrow> alloc h (h ! ch)
             | None \<Rightarrow> alloc h \<lparr>cell_children = Map.empty, cell_value = None\<rparr>);
          h2 = set_child h1 p c new_node
      in cow_loop h2 new_node p cs)"

text \<open>
  The end of \<open>Put\<close> after the loop: the value node takes over the children of the node
  \<open>p\<close> the loop ended in, when it has any, and is stored in \<open>pre_node\<close> under the last
  byte of the key.
\<close>

definition put_finish :: "store \<Rightarrow> addr \<Rightarrow> addr \<Rightarrow> addr \<Rightarrow> char \<Rightarrow> store" where
  "put_finish h p pre_node node c =
     set_child
       (if cell_children (h ! p) \<noteq> Map.empty then set_children h node (cell_children (h ! p)) else h)
       pre_node c node"

text \<open>\<open>Put\<close> on the store: the new store and the root of the returned trie.\<close>

definition Put_store :: "store \<Rightarrow> addr option \<Rightarrow> string \<Rightarrow> payload \<Rightarrow> store \<times> addr option" where
  "Put_store h r key v =
     (let (h1, node) = alloc h \<lparr>cell_children = Map.empty, cell_value = Some v\<rparr>
      in case r of
           None \<Rightarrow> (let (h2, node') = chain_loop h1 node (rev key) in (h2, Some node'))
         | Some rt \<Rightarrow>
             if key = [] then (set_children h1 node (cell_children (h1 ! rt)), Some node)
             else
               (let (h2, p0) = alloc h1 (h1 ! rt);
                    (h3, p, pre_node) = cow_loop h2 p0 p0 key
                in (put_finish h3 p pre_node node (last key), Some p0)))"

text \<open>
  The tree an address stands for: the node at the address carries the value and the
  children of the tree, child by child.
\<close>

inductive tree_at :: "store \<Rightarrow> addr \<Rightarrow> TrieNode \<Rightarrow> bool" for h :: store where
  tree_atI:
    "a < length h \<Longrightarrow> cell_value (h ! a) = v
      \<Longrightarrow> (\<And>c. cell_children (h ! a) c = None \<Longrightarrow> cs c = None)
      \<Longrightarrow> (\<And>c b. cell_children (h ! a) c = Some b \<Longrightarrow> \<exists>n. cs c = Some n \<and> tree_at h b n)
      \<Longrightarrow> tree_at h a (TrieNode cs v)"

text \<open>
  A cell whose children are nodes of the store \<open>h0\<close> that stand for the children of a
  tree, and the trie a root pointer stands for.
\<close>

definition cell_of :: "store \<Rightarrow> cell \<Rightarrow> TrieNode \<Rightarrow> bool" where
  "cell_of h0 x n \<longleftrightarrow>
     cell_value x = node_value n \<and>
     (\<forall>c. cell_children x c = None \<longrightarrow> children n c = None) \<and>
     (\<forall>c b. cell_children x c = Some b \<longrightarrow> (\<exists>m. children n c = Some m \<and> tree_at h0 b m))"

definition trie_at :: "store \<Rightarrow> addr option \<Rightarrow> Trie \<Rightarrow> bool" where
  "trie_at h r t \<longleftrightarrow>
     (case r of None \<Rightarrow> t = Trie None | Some a \<Rightarrow> (\<exists>n. t = Trie (Some n) \<and> tree_at h a n))"

section \<open>Properties of the LRU-K replacer\<close>

subsection \<open>The representation invariant is kept by every call\<close>

lemma list_erase_Inr:
  assumes "list_erase it l = Inr l'"
  obtains i g where "it = Some i" "(i, g) \<in> set l" "l' = remove1 (i, g) l"
proof -
  from assms obtain i where it: "it = Some i"
    by (cases it) (auto simp: list_erase_def)
  from assms it obtain n where n: "find (\<lambda>n. fst n = i) l = Some n" "l' = remove1 n l"
    by (auto simp: list_erase_def split: option.splits)
  from n(1) have "n \<in> set l" "fst n = i"
    by (auto simp: find_Some_iff)
  with it n(2) that [of i "snd n"] show thesis by (cases n) auto
qed

lemma frames_remove1:
  "distinct (map snd l) \<Longrightarrow> n \<in> set l \<Longrightarrow> set (map snd (remove1 n l)) = set (map snd l) - {snd n}"
proof (induction l)
  case Nil
  then show ?case by simp
next
  case (Cons a l)
  then show ?case by (auto simp: image_iff)
qed

lemma distinct_map_remove1: "distinct (map g l) \<Longrightarrow> distinct (map g (remove1 n l))"
proof (induction l)
  case Nil
  then show ?case by simp
next
  case (Cons a l)
  have "set (remove1 n l) \<subseteq> set l" by (rule set_remove1_subset)
  with Cons show ?case by auto
qed

lemma in_range_card:
  assumes "\<forall>f \<in> D. frame_in_range s f"
  shows "finite D" and "card D \<le> unat (replacer_size s)"
proof -
  let ?R = "int ` {..< unat (replacer_size s)}"
  have sub: "D \<subseteq> ?R"
  proof
    fix x assume "x \<in> D"
    with assms have "nat x < unat (replacer_size s)" "0 \<le> x"
      by (auto simp: frame_in_range_def)
    then have "x = int (nat x)" "nat x \<in> {..< unat (replacer_size s)}" by simp_all
    then show "x \<in> ?R" by (rule image_eqI)
  qed
  show "finite D" using sub by (rule finite_subset) simp
  have "card D \<le> card ?R" using sub by (intro card_mono) simp_all
  also have "card ?R = unat (replacer_size s)" by (simp add: card_image)
  finally show "card D \<le> unat (replacer_size s)" .
qed


lemma unat_succ: "unat (x :: 64 word) < 2 ^ 64 - 1 \<Longrightarrow> unat (x + 1) = Suc (unat x)"
  using unat_add_lem [of x 1] by simp

lemma card_untrack:
  assumes "finite D" "f \<in> D" "f \<notin> N" "unat (c :: 64 word) = card (D - N)"
  shows "unat (c - 1) = card (D - {f} - N)"
proof -
  have fin: "finite (D - N)" using assms(1) by simp
  have mem: "f \<in> D - N" using assms by simp
  have "card (D - N) > 0" using fin mem by (auto simp: card_gt_0_iff)
  then have "c \<noteq> 0" using assms(4) by (metis unat_gt_0)
  then have "unat (c - 1) = unat c - 1" by (rule unat_minus_one)
  also have "\<dots> = card (D - N - {f})" using assms(4) fin mem by simp
  also have "D - N - {f} = D - {f} - N" by auto
  finally show ?thesis .
qed

lemma frames_of_remove1:
  "distinct (frames_of l) \<Longrightarrow> n \<in> set l
    \<Longrightarrow> set (frames_of (remove1 n l)) = set (frames_of l) - {snd n}"
  unfolding frames_of_def by (rule frames_remove1)

lemma distinct_frames_of_remove1: "distinct (frames_of l) \<Longrightarrow> distinct (frames_of (remove1 n l))"
  unfolding frames_of_def by (rule distinct_map_remove1)

lemma frames_of_mem: "n \<in> set l \<Longrightarrow> snd n \<in> set (frames_of l)"
  by (simp add: frames_of_def)

lemma inv_untrack_inf:
  assumes inv: "replacer_inv s" and n: "n \<in> set (inf_history_list s)"
    and ev: "snd n \<notin> non_evictable_set s"
  shows "replacer_inv (s\<lparr>count_map := (count_map s)(snd n := None),
                inf_history_list := remove1 n (inf_history_list s),
                inf_history_iter_map := (inf_history_iter_map s)(snd n := None),
                curr_size := curr_size s - 1\<rparr>)"
proof -
  let ?f = "snd n"
  from inv have d1: "distinct (map fst (inf_history_list s))"
    and d3: "distinct (frames_of (inf_history_list s) @ frames_of (history_list s))"
    and tr: "set (frames_of (inf_history_list s)) \<union> set (frames_of (history_list s)) = dom (count_map s)"
    and rng: "\<forall>f \<in> dom (count_map s). frame_in_range s f"
    and cs: "unat (curr_size s) = card (dom (count_map s) - non_evictable_set s)"
    by (simp_all add: replacer_inv_def)
  have sub: "set (remove1 n (inf_history_list s)) \<subseteq> set (inf_history_list s)"
    by (rule set_remove1_subset)
  have fr: "set (frames_of (remove1 n (inf_history_list s))) = set (frames_of (inf_history_list s)) - {?f}"
    using d3 n by (simp add: frames_of_remove1)
  have nh: "?f \<notin> set (frames_of (history_list s))"
    using d3 frames_of_mem [OF n] by auto
  have fin: "finite (dom (count_map s))" using rng by (rule in_range_card)
  have mem: "?f \<in> dom (count_map s)" using tr frames_of_mem [OF n] by blast
  have c: "unat (curr_size s - 1) = card (dom (count_map s) - {?f} - non_evictable_set s)"
    using fin mem ev cs by (rule card_untrack)
  have dd: "distinct (frames_of (remove1 n (inf_history_list s)) @ frames_of (history_list s))"
    using d3 fr by (auto simp: distinct_frames_of_remove1)
  show ?thesis
    using inv sub fr nh c dd ev
    by (auto simp: replacer_inv_def distinct_map_remove1 frame_in_range_def)
qed


lemma inv_untrack_hist:
  assumes inv: "replacer_inv s" and n: "n \<in> set (history_list s)"
    and ev: "snd n \<notin> non_evictable_set s"
  shows "replacer_inv (s\<lparr>count_map := (count_map s)(snd n := None),
                history_list := remove1 n (history_list s),
                history_iter_map := (history_iter_map s)(snd n := None),
                curr_size := curr_size s - 1\<rparr>)"
proof -
  let ?f = "snd n"
  from inv have d3: "distinct (frames_of (inf_history_list s) @ frames_of (history_list s))"
    and tr: "set (frames_of (inf_history_list s)) \<union> set (frames_of (history_list s)) = dom (count_map s)"
    and rng: "\<forall>f \<in> dom (count_map s). frame_in_range s f"
    and cs: "unat (curr_size s) = card (dom (count_map s) - non_evictable_set s)"
    by (simp_all add: replacer_inv_def)
  have sub: "set (remove1 n (history_list s)) \<subseteq> set (history_list s)"
    by (rule set_remove1_subset)
  have fr: "set (frames_of (remove1 n (history_list s))) = set (frames_of (history_list s)) - {?f}"
    using d3 n by (simp add: frames_of_remove1)
  have nh: "?f \<notin> set (frames_of (inf_history_list s))"
    using d3 frames_of_mem [OF n] by auto
  have fin: "finite (dom (count_map s))" using rng by (rule in_range_card)
  have mem: "?f \<in> dom (count_map s)" using tr frames_of_mem [OF n] by blast
  have c: "unat (curr_size s - 1) = card (dom (count_map s) - {?f} - non_evictable_set s)"
    using fin mem ev cs by (rule card_untrack)
  have dd: "distinct (frames_of (inf_history_list s) @ frames_of (remove1 n (history_list s)))"
    using d3 fr by (auto simp: distinct_frames_of_remove1)
  show ?thesis
    using inv sub fr nh c dd ev
    by (auto simp: replacer_inv_def distinct_map_remove1 frame_in_range_def)
qed

lemma inv_Evict:
  assumes "replacer_inv s"
  shows "replacer_inv (snd (Evict s))"
proof (cases "curr_size s = 0")
  case True
  then show ?thesis using assms by (simp add: Evict_def)
next
  case nz: False
  show ?thesis
  proof (cases "find (\<lambda>n. snd n \<notin> non_evictable_set s) (inf_history_list s)")
    case (Some n)
    then have "n \<in> set (inf_history_list s)" "snd n \<notin> non_evictable_set s"
      by (auto simp: find_Some_iff)
    from inv_untrack_inf [OF assms this] show ?thesis
      using nz Some by (simp add: Evict_def)
  next
    case inf_none: None
    show ?thesis
    proof (cases "find (\<lambda>n. snd n \<notin> non_evictable_set s) (history_list s)")
      case None
      then show ?thesis using assms nz inf_none by (simp add: Evict_def)
    next
      case (Some n)
      then have "n \<in> set (history_list s)" "snd n \<notin> non_evictable_set s"
        by (auto simp: find_Some_iff)
      from inv_untrack_hist [OF assms this] show ?thesis
        using nz inf_none Some by (simp add: Evict_def)
    qed
  qed
qed

lemma erase_iter_inf:
  assumes inv: "replacer_inv s"
    and er: "list_erase (inf_history_iter_map s f) (inf_history_list s) = Inr l"
  obtains i where "(i, f) \<in> set (inf_history_list s)" "l = remove1 (i, f) (inf_history_list s)"
proof -
  from er obtain i g where ig: "inf_history_iter_map s f = Some i"
    "(i, g) \<in> set (inf_history_list s)" "l = remove1 (i, g) (inf_history_list s)"
    by (rule list_erase_Inr)
  from inv ig(1,2) have "g = f" unfolding replacer_inv_def by blast
  with ig that show thesis by simp
qed

lemma erase_iter_hist:
  assumes inv: "replacer_inv s"
    and er: "list_erase (history_iter_map s f) (history_list s) = Inr l"
  obtains i where "(i, f) \<in> set (history_list s)" "l = remove1 (i, f) (history_list s)"
proof -
  from er obtain i g where ig: "history_iter_map s f = Some i"
    "(i, g) \<in> set (history_list s)" "l = remove1 (i, g) (history_list s)"
    by (rule list_erase_Inr)
  from inv ig(1,2) have "g = f" unfolding replacer_inv_def by blast
  with ig that show thesis by simp
qed

lemma inv_Remove:
  assumes inv: "replacer_inv s" and rm: "Remove s f = Inr s'"
  shows "replacer_inv s'"
proof (cases "count_map s f")
  case None
  with rm inv show ?thesis by (auto simp: Remove_def split: if_splits)
next
  case (Some c)
  show ?thesis
  proof (cases "f \<in> non_evictable_set s")
    case True
    with rm inv Some show ?thesis by (auto simp: Remove_def split: if_splits)
  next
    case ev: False
    show ?thesis
    proof (cases "c \<ge> lru_k s")
      case True
      with rm Some ev obtain l where l: "list_erase (history_iter_map s f) (history_list s) = Inr l"
        and s': "s' = s\<lparr>history_list := l,
                           history_iter_map := (history_iter_map s)(f := None),
                           count_map := (count_map s)(f := None),
                           curr_size := curr_size s - 1\<rparr>"
        by (auto simp: Remove_def split: if_splits sum.splits)
      from inv l obtain i where i: "(i, f) \<in> set (history_list s)" "l = remove1 (i, f) (history_list s)"
        by (rule erase_iter_hist)
      have eq: "s' = s\<lparr>count_map := (count_map s)(f := None),
                history_list := remove1 (i, f) (history_list s),
                history_iter_map := (history_iter_map s)(f := None),
                curr_size := curr_size s - 1\<rparr>"
        unfolding s' i(2) by simp
      show ?thesis unfolding eq using inv_untrack_hist [OF inv i(1)] ev by simp
    next
      case False
      with rm Some ev obtain l where l: "list_erase (inf_history_iter_map s f) (inf_history_list s) = Inr l"
        and s': "s' = s\<lparr>inf_history_list := l,
                           inf_history_iter_map := (inf_history_iter_map s)(f := None),
                           count_map := (count_map s)(f := None),
                           curr_size := curr_size s - 1\<rparr>"
        by (auto simp: Remove_def split: if_splits sum.splits)
      from inv l obtain i where i: "(i, f) \<in> set (inf_history_list s)" "l = remove1 (i, f) (inf_history_list s)"
        by (rule erase_iter_inf)
      have eq: "s' = s\<lparr>count_map := (count_map s)(f := None),
                inf_history_list := remove1 (i, f) (inf_history_list s),
                inf_history_iter_map := (inf_history_iter_map s)(f := None),
                curr_size := curr_size s - 1\<rparr>"
        unfolding s' i(2) by simp
      show ?thesis unfolding eq using inv_untrack_inf [OF inv i(1)] ev by simp
    qed
  qed
qed


lemma card_track:
  assumes rng: "\<forall>g \<in> D. frame_in_range s g" and f: "f \<in> D" "f \<notin> E" and sub: "E \<subseteq> D"
    and c: "unat (c :: 64 word) = card E"
  shows "unat (c + 1) = card (insert f E)"
proof -
  have fin: "finite D" and le: "card D \<le> unat (replacer_size s)"
    using rng by (rule in_range_card)+
  have finE: "finite E" using sub fin by (rule finite_subset)
  have "card (insert f E) \<le> card D" using f sub fin by (intro card_mono) auto
  then have "Suc (card E) \<le> unat (replacer_size s)" using le finE f by simp
  moreover have "unat (replacer_size s) < 2 ^ 64" using unsigned_less [of "replacer_size s"] by simp
  ultimately have "unat c < 2 ^ 64 - 1" using c by simp
  then have "unat (c + 1) = Suc (unat c)" by (rule unat_succ)
  then show ?thesis using c finE f by simp
qed

lemma inv_SetEvictable:
  assumes inv: "replacer_inv s" and se: "SetEvictable s f b = Inr s'"
  shows "replacer_inv s'"
proof (cases "count_map s f")
  case None
  with se inv show ?thesis by (auto simp: SetEvictable_def split: if_splits)
next
  case (Some c0)
  from se have inr: "frame_in_range s f" by (auto simp: SetEvictable_def split: if_splits)
  from inv have rng: "\<forall>f \<in> dom (count_map s). frame_in_range s f"
    and cs: "unat (curr_size s) = card (dom (count_map s) - non_evictable_set s)"
    and ne: "non_evictable_set s \<subseteq> dom (count_map s)"
    by (simp_all add: replacer_inv_def)
  have fin: "finite (dom (count_map s))" using rng by (rule in_range_card)
  have mem: "f \<in> dom (count_map s)" using Some by auto
  consider (pin) "f \<notin> non_evictable_set s" "\<not> b" | (unpin) "f \<in> non_evictable_set s" "b"
    | (same) "(f \<in> non_evictable_set s) = (\<not> b)"
    by blast
  then show ?thesis
  proof cases
    case pin
    then have s': "s' = s\<lparr>non_evictable_set := insert f (non_evictable_set s),
                          curr_size := curr_size s - 1\<rparr>"
      using se Some inr by (simp add: SetEvictable_def Let_def)
    have "unat (curr_size s - 1) = card (dom (count_map s) - {f} - non_evictable_set s)"
      using fin mem pin(1) cs by (rule card_untrack)
    moreover have "dom (count_map s) - {f} - non_evictable_set s
        = dom (count_map s) - insert f (non_evictable_set s)" by auto
    ultimately show ?thesis using inv mem unfolding s'
      by (simp add: replacer_inv_def frame_in_range_def)
  next
    case unpin
    then have s': "s' = s\<lparr>non_evictable_set := non_evictable_set s - {f},
                           curr_size := curr_size s + 1\<rparr>"
      using se Some inr by (simp add: SetEvictable_def Let_def)
    have "unat (curr_size s + 1) = card (insert f (dom (count_map s) - non_evictable_set s))"
      using rng mem _ _ cs by (rule card_track) (use unpin in auto)
    moreover have "insert f (dom (count_map s) - non_evictable_set s)
        = dom (count_map s) - (non_evictable_set s - {f})" using mem by auto
    ultimately show ?thesis using inv ne unfolding s'
      by (auto simp: replacer_inv_def frame_in_range_def)
  next
    case same
    then have "s' = s" using se Some inr by (auto simp: SetEvictable_def Let_def)
    with inv show ?thesis by simp
  qed
qed


lemma frames_of_append [simp]: "frames_of (l @ [(i, f)]) = frames_of l @ [f]"
  by (simp add: frames_of_def)

lemma inv_first_access:
  assumes inv: "replacer_inv s" and un: "count_map s f = None" and inr: "frame_in_range s f"
  shows "replacer_inv (s\<lparr>inf_history_list := inf_history_list s @ [(next_node s, f)],
                    inf_history_iter_map := (inf_history_iter_map s)(f \<mapsto> next_node s),
                    count_map := (count_map s)(f \<mapsto> 1),
                    curr_size := curr_size s + 1,
                    next_node := Suc (next_node s)\<rparr>)"
proof -
  from inv have tr: "set (frames_of (inf_history_list s)) \<union> set (frames_of (history_list s)) = dom (count_map s)"
    and rng: "\<forall>f \<in> dom (count_map s). frame_in_range s f"
    and cs: "unat (curr_size s) = card (dom (count_map s) - non_evictable_set s)"
    and ne: "non_evictable_set s \<subseteq> dom (count_map s)"
    and fresh: "\<forall>n \<in> set (inf_history_list s) \<union> set (history_list s). fst n < next_node s"
    by (simp_all add: replacer_inv_def)
  have nd: "f \<notin> dom (count_map s)" using un by auto
  then have nf: "f \<notin> set (frames_of (inf_history_list s))" "f \<notin> set (frames_of (history_list s))"
    using tr by auto
  have nne: "f \<notin> non_evictable_set s" using nd ne by auto
  have fresh': "\<And>a b. (a, b) \<in> set (inf_history_list s) \<Longrightarrow> a < next_node s"
    "\<And>a b. (a, b) \<in> set (history_list s) \<Longrightarrow> a < next_node s"
    using fresh by force+
  have fr1: "next_node s \<notin> fst ` set (inf_history_list s)" using fresh' by force
  have rng': "\<forall>g \<in> insert f (dom (count_map s)). frame_in_range s g" using rng inr by simp
  have "unat (curr_size s + 1) = card (insert f (dom (count_map s) - non_evictable_set s))"
    using rng' _ _ _ cs by (rule card_track) (use nd in auto)
  moreover have "insert f (dom (count_map s) - non_evictable_set s)
      = insert f (dom (count_map s)) - non_evictable_set s" using nne by auto
  ultimately have c: "unat (curr_size s + 1) = card (insert f (dom (count_map s)) - non_evictable_set s)"
    by simp
  from inv have it: "\<And>g i. inf_history_iter_map s g = Some i \<Longrightarrow> i < next_node s"
    "\<And>g i. history_iter_map s g = Some i \<Longrightarrow> i < next_node s"
    by (auto simp: replacer_inv_def)
  show ?thesis
    using inv nf nne fr1 c inr
    apply (simp add: replacer_inv_def frame_in_range_def)
    apply (intro conjI allI impI ballI)
                   apply (auto dest: fresh' intro: less_SucI it)
    done
qed


lemma inv_touch:
  assumes inv: "replacer_inv s" and tr: "count_map s f = Some c"
    and n: "(i, f) \<in> set (history_list s)"
  shows "replacer_inv (s\<lparr>history_list := remove1 (i, f) (history_list s) @ [(next_node s, f)],
                           history_iter_map := (history_iter_map s)(f \<mapsto> next_node s),
                           count_map := (count_map s)(f \<mapsto> c + 1),
                           next_node := Suc (next_node s)\<rparr>)"
proof -
  let ?l = "remove1 (i, f) (history_list s)"
  from inv have d3: "distinct (frames_of (inf_history_list s) @ frames_of (history_list s))"
    and fresh: "\<forall>n \<in> set (inf_history_list s) \<union> set (history_list s). fst n < next_node s"
    by (simp_all add: replacer_inv_def)
  have sub: "set ?l \<subseteq> set (history_list s)" by (rule set_remove1_subset)
  have fr: "set (frames_of ?l) = set (frames_of (history_list s)) - {f}"
    using d3 n frames_of_remove1 [of "history_list s" "(i, f)"] by simp
  have nf: "f \<notin> set (frames_of (inf_history_list s))"
    using d3 frames_of_mem [OF n] by auto
  have mem: "f \<in> set (frames_of (history_list s))" using frames_of_mem [OF n] by simp
  have dom: "\<And>x. dom ((count_map s)(f \<mapsto> x)) = dom (count_map s)" using tr by auto
  have fresh': "\<And>a b. (a, b) \<in> set (inf_history_list s) \<Longrightarrow> a < next_node s"
    "\<And>a b. (a, b) \<in> set (history_list s) \<Longrightarrow> a < next_node s"
    using fresh by force+
  have fr1: "next_node s \<notin> fst ` set ?l" using fresh' sub by force
  have dl: "distinct (map fst ?l)" "distinct (frames_of ?l)"
    using inv by (simp_all add: replacer_inv_def distinct_map_remove1 distinct_frames_of_remove1)
  from inv have it: "\<And>g i. inf_history_iter_map s g = Some i \<Longrightarrow> i < next_node s"
    "\<And>g i. history_iter_map s g = Some i \<Longrightarrow> i < next_node s"
    by (auto simp: replacer_inv_def)
  from inv have pt: "\<And>g i h. history_iter_map s g = Some i \<Longrightarrow> (i, h) \<in> set (history_list s) \<Longrightarrow> h = g"
    unfolding replacer_inv_def by blast
  have sub': "\<And>a b. (a, b) \<in> set ?l \<Longrightarrow> (a, b) \<in> set (history_list s)" using sub by auto
  show ?thesis
    using inv nf mem fr fr1 dl
    apply (simp add: replacer_inv_def frame_in_range_def dom del: dom_fun_upd)
    apply (intro conjI allI impI ballI)
              apply (auto dest: fresh' sub' pt intro: less_SucI it split: if_splits)
    done
qed

lemma inv_promote:
  assumes inv: "replacer_inv s" and tr: "count_map s f = Some c"
    and n: "(i, f) \<in> set (inf_history_list s)"
  shows "replacer_inv (s\<lparr>count_map := (count_map s)(f \<mapsto> c + 1),
                           inf_history_list := remove1 (i, f) (inf_history_list s),
                           history_list := history_list s @ [(next_node s, f)],
                           history_iter_map := (history_iter_map s)(f \<mapsto> next_node s),
                           next_node := Suc (next_node s)\<rparr>)"
proof -
  let ?l = "remove1 (i, f) (inf_history_list s)"
  from inv have d3: "distinct (frames_of (inf_history_list s) @ frames_of (history_list s))"
    and fresh: "\<forall>n \<in> set (inf_history_list s) \<union> set (history_list s). fst n < next_node s"
    by (simp_all add: replacer_inv_def)
  have sub: "set ?l \<subseteq> set (inf_history_list s)" by (rule set_remove1_subset)
  have fr: "set (frames_of ?l) = set (frames_of (inf_history_list s)) - {f}"
    using d3 n frames_of_remove1 [of "inf_history_list s" "(i, f)"] by simp
  have nf: "f \<notin> set (frames_of (history_list s))"
    using d3 frames_of_mem [OF n] by auto
  have mem: "f \<in> set (frames_of (inf_history_list s))" using frames_of_mem [OF n] by simp
  have dom: "\<And>x. dom ((count_map s)(f \<mapsto> x)) = dom (count_map s)" using tr by auto
  have fresh': "\<And>a b. (a, b) \<in> set (inf_history_list s) \<Longrightarrow> a < next_node s"
    "\<And>a b. (a, b) \<in> set (history_list s) \<Longrightarrow> a < next_node s"
    using fresh by force+
  have fr1: "next_node s \<notin> fst ` set (history_list s)" using fresh' by force
  have dl: "distinct (map fst ?l)" "distinct (frames_of ?l)"
    using inv by (simp_all add: replacer_inv_def distinct_map_remove1 distinct_frames_of_remove1)
  from inv have it: "\<And>g i. inf_history_iter_map s g = Some i \<Longrightarrow> i < next_node s"
    "\<And>g i. history_iter_map s g = Some i \<Longrightarrow> i < next_node s"
    by (auto simp: replacer_inv_def)
  from inv have pt: "\<And>g i h. inf_history_iter_map s g = Some i \<Longrightarrow> (i, h) \<in> set (inf_history_list s) \<Longrightarrow> h = g"
    "\<And>g i h. history_iter_map s g = Some i \<Longrightarrow> (i, h) \<in> set (history_list s) \<Longrightarrow> h = g"
    unfolding replacer_inv_def by blast+
  have sub': "\<And>a b. (a, b) \<in> set ?l \<Longrightarrow> (a, b) \<in> set (inf_history_list s)" using sub by auto
  show ?thesis
    using inv nf mem fr fr1 dl
    apply (simp add: replacer_inv_def frame_in_range_def dom del: dom_fun_upd)
    apply (intro conjI allI impI ballI)
              apply (auto dest: fresh' sub' pt intro: less_SucI it split: if_splits)
    done
qed

lemma inv_count:
  assumes inv: "replacer_inv s" and tr: "count_map s f = Some c"
  shows "replacer_inv (s\<lparr>count_map := (count_map s)(f \<mapsto> c + 1)\<rparr>)"
proof -
  have dom: "\<And>x. dom ((count_map s)(f \<mapsto> x)) = dom (count_map s)" using tr by auto
  show ?thesis using inv
    by (simp add: replacer_inv_def frame_in_range_def dom del: dom_fun_upd)
qed

lemma inv_RecordAccess:
  assumes inv: "replacer_inv s" and ra: "RecordAccess s f = Inr s'"
  shows "replacer_inv s'"
proof -
  from ra have inr: "frame_in_range s f" by (auto simp: RecordAccess_def split: if_splits)
  show ?thesis
  proof (cases "count_map s f")
    case None
    with ra inr have "s' = s\<lparr>inf_history_list := inf_history_list s @ [(next_node s, f)],
                    inf_history_iter_map := (inf_history_iter_map s)(f \<mapsto> next_node s),
                    count_map := (count_map s)(f \<mapsto> 1),
                    curr_size := curr_size s + 1,
                    next_node := Suc (next_node s)\<rparr>"
      by (simp add: RecordAccess_def)
    with inv_first_access [OF inv None inr] show ?thesis by simp
  next
    case (Some c)
    consider (touch) "c \<ge> lru_k s" | (promote) "c < lru_k s" "c + 1 \<ge> lru_k s"
      | (count) "c + 1 < lru_k s" by linarith
    then show ?thesis
    proof cases
      case touch
      with ra inr Some obtain l where l: "list_erase (history_iter_map s f) (history_list s) = Inr l"
        and s': "s' = s\<lparr>history_list := l @ [(next_node s, f)],
                           history_iter_map := (history_iter_map s)(f \<mapsto> next_node s),
                           count_map := (count_map s)(f \<mapsto> c + 1),
                           next_node := Suc (next_node s)\<rparr>"
        by (auto simp: RecordAccess_def split: sum.splits)
      from inv l obtain i where i: "(i, f) \<in> set (history_list s)" "l = remove1 (i, f) (history_list s)"
        by (rule erase_iter_hist)
      show ?thesis unfolding s' i(2) using inv Some i(1) by (rule inv_touch)
    next
      case promote
      with ra inr Some obtain l where l: "list_erase (inf_history_iter_map s f) (inf_history_list s) = Inr l"
        and s': "s' = s\<lparr>count_map := (count_map s)(f \<mapsto> c + 1),
                           inf_history_list := l,
                           history_list := history_list s @ [(next_node s, f)],
                           history_iter_map := (history_iter_map s)(f \<mapsto> next_node s),
                           next_node := Suc (next_node s)\<rparr>"
        by (auto simp: RecordAccess_def split: sum.splits)
      from inv l obtain i where i: "(i, f) \<in> set (inf_history_list s)" "l = remove1 (i, f) (inf_history_list s)"
        by (rule erase_iter_inf)
      show ?thesis unfolding s' i(2) using inv Some i(1) by (rule inv_promote)
    next
      case count
      with ra inr Some have "s' = s\<lparr>count_map := (count_map s)(f \<mapsto> c + 1)\<rparr>"
        by (auto simp: RecordAccess_def)
      with inv_count [OF inv Some] show ?thesis by simp
    qed
  qed
qed

lemma inv_init: "replacer_inv (LRUKReplacer_init n k)"
  by (simp add: replacer_inv_def LRUKReplacer_init_def frames_of_def)

lemma inv_apply_call: "replacer_inv s \<Longrightarrow> apply_call s c = Inr s' \<Longrightarrow> replacer_inv s'"
  by (cases c) (auto intro: inv_RecordAccess inv_SetEvictable inv_Remove inv_Evict)

lemma inv_apply_calls: "replacer_inv s \<Longrightarrow> apply_calls s cs = Inr s' \<Longrightarrow> replacer_inv s'"
proof (induction cs arbitrary: s)
  case Nil
  then show ?case by simp
next
  case (Cons c cs)
  then show ?case by (auto split: sum.splits dest: inv_apply_call)
qed


lemma find_frames_of:
  "find P (frames_of l) = map_option snd (find (\<lambda>n. P (snd n)) l)"
  unfolding frames_of_def by (induction l) auto

lemma frames_of_remove1_removeAll:
  "distinct (frames_of l) \<Longrightarrow> n \<in> set l \<Longrightarrow> frames_of (remove1 n l) = removeAll (snd n) (frames_of l)"
  unfolding frames_of_def
proof (induction l)
  case Nil
  then show ?case by simp
next
  case (Cons a l)
  show ?case
  proof (cases "a = n")
    case True
    with Cons.prems show ?thesis by (auto simp: image_iff)
  next
    case False
    with Cons show ?thesis by (auto simp: image_iff)
  qed
qed

lemma removeAll_notin: "x \<notin> set xs \<Longrightarrow> removeAll x xs = xs"
  by (induction xs) auto

lemma curr_size_zero_iff:
  assumes "replacer_inv s"
  shows "curr_size s = 0 \<longleftrightarrow> dom (count_map s) \<subseteq> non_evictable_set s"
proof -
  from assms have rng: "\<forall>f \<in> dom (count_map s). frame_in_range s f"
    and cs: "unat (curr_size s) = card (dom (count_map s) - non_evictable_set s)"
    by (simp_all add: replacer_inv_def)
  have fin: "finite (dom (count_map s) - non_evictable_set s)"
    using in_range_card(1) [OF rng] by simp
  have "curr_size s = 0 \<longleftrightarrow> unat (curr_size s) = 0" by (simp add: unat_eq_0)
  also have "\<dots> \<longleftrightarrow> dom (count_map s) - non_evictable_set s = {}" using cs fin by simp
  finally show ?thesis by auto
qed

lemma Evict_fst:
  assumes inv: "replacer_inv s"
  shows "fst (Evict s) =
     (case find (\<lambda>f. f \<notin> non_evictable_set s) (frames_of (inf_history_list s)) of
        Some f \<Rightarrow> Some f
      | None \<Rightarrow> find (\<lambda>f. f \<notin> non_evictable_set s) (frames_of (history_list s)))"
proof (cases "curr_size s = 0")
  case True
  with inv have sub: "dom (count_map s) \<subseteq> non_evictable_set s" by (simp add: curr_size_zero_iff)
  from inv have "set (frames_of (inf_history_list s)) \<union> set (frames_of (history_list s)) = dom (count_map s)"
    by (simp add: replacer_inv_def)
  with sub have "\<forall>f \<in> set (frames_of (inf_history_list s)). f \<in> non_evictable_set s"
    "\<forall>f \<in> set (frames_of (history_list s)). f \<in> non_evictable_set s" by blast+
  then have "find (\<lambda>f. f \<notin> non_evictable_set s) (frames_of (inf_history_list s)) = None"
    "find (\<lambda>f. f \<notin> non_evictable_set s) (frames_of (history_list s)) = None"
    by (simp_all add: find_None_iff)
  with True show ?thesis by (simp add: Evict_def)
next
  case False
  then show ?thesis
    by (auto simp: Evict_def find_frames_of split: option.splits)
qed

lemma Evict_Some:
  assumes inv: "replacer_inv s" and ev: "fst (Evict s) = Some f"
  shows "curr_size s \<noteq> 0" "f \<in> dom (count_map s)" "f \<notin> non_evictable_set s"
    "count_map (snd (Evict s)) = (count_map s)(f := None)"
    "frames_of (inf_history_list (snd (Evict s))) = removeAll f (frames_of (inf_history_list s))"
    "frames_of (history_list (snd (Evict s))) = removeAll f (frames_of (history_list s))"
    "curr_size (snd (Evict s)) = curr_size s - 1"
    "non_evictable_set (snd (Evict s)) = non_evictable_set s"
proof -
  from inv have d3: "distinct (frames_of (inf_history_list s) @ frames_of (history_list s))"
    and tr: "set (frames_of (inf_history_list s)) \<union> set (frames_of (history_list s)) = dom (count_map s)"
    by (simp_all add: replacer_inv_def)
  from ev show nz: "curr_size s \<noteq> 0" by (auto simp: Evict_def)
  show "f \<in> dom (count_map s)" "f \<notin> non_evictable_set s"
    "count_map (snd (Evict s)) = (count_map s)(f := None)"
    "frames_of (inf_history_list (snd (Evict s))) = removeAll f (frames_of (inf_history_list s))"
    "frames_of (history_list (snd (Evict s))) = removeAll f (frames_of (history_list s))"
    "curr_size (snd (Evict s)) = curr_size s - 1"
    "non_evictable_set (snd (Evict s)) = non_evictable_set s"
  proof (atomize (full), cases "find (\<lambda>n. snd n \<notin> non_evictable_set s) (inf_history_list s)", goal_cases)
    case 1
    with ev nz obtain n where n: "find (\<lambda>n. snd n \<notin> non_evictable_set s) (history_list s) = Some n"
      and f: "f = snd n"
      by (auto simp: Evict_def split: option.splits)
    from n have mem: "n \<in> set (history_list s)" and ne: "snd n \<notin> non_evictable_set s"
      by (auto simp: find_Some_iff)
    have "snd n \<notin> set (frames_of (inf_history_list s))" using d3 frames_of_mem [OF mem] by auto
    then have "removeAll (snd n) (frames_of (inf_history_list s)) = frames_of (inf_history_list s)"
      by (rule removeAll_notin)
    moreover have "frames_of (remove1 n (history_list s)) = removeAll (snd n) (frames_of (history_list s))"
      using d3 mem by (simp add: frames_of_remove1_removeAll)
    moreover have "snd n \<in> dom (count_map s)" using tr frames_of_mem [OF mem] by blast
    ultimately show ?case using 1 n f ne nz by (simp add: Evict_def)
  next
    case (2 n)
    with ev nz have f: "f = snd n" by (auto simp: Evict_def)
    from 2 have mem: "n \<in> set (inf_history_list s)" and ne: "snd n \<notin> non_evictable_set s"
      by (auto simp: find_Some_iff)
    have "snd n \<notin> set (frames_of (history_list s))" using d3 frames_of_mem [OF mem] by auto
    then have "removeAll (snd n) (frames_of (history_list s)) = frames_of (history_list s)"
      by (rule removeAll_notin)
    moreover have "frames_of (remove1 n (inf_history_list s)) = removeAll (snd n) (frames_of (inf_history_list s))"
      using d3 mem by (simp add: frames_of_remove1_removeAll)
    moreover have "snd n \<in> dom (count_map s)" using tr frames_of_mem [OF mem] by blast
    ultimately show ?case using 2 f ne nz by (simp add: Evict_def)
  qed
qed

lemma Evict_None: "fst (Evict s) = None \<Longrightarrow> snd (Evict s) = s"
  by (auto simp: Evict_def split: option.splits if_splits)


lemma Evict_None_iff:
  assumes inv: "replacer_inv s"
  shows "fst (Evict s) = None \<longleftrightarrow> dom (count_map s) \<subseteq> non_evictable_set s"
proof -
  from inv have tr: "set (frames_of (inf_history_list s)) \<union> set (frames_of (history_list s)) = dom (count_map s)"
    by (simp add: replacer_inv_def)
  have "fst (Evict s) = None \<longleftrightarrow>
      find (\<lambda>f. f \<notin> non_evictable_set s) (frames_of (inf_history_list s)) = None \<and>
      find (\<lambda>f. f \<notin> non_evictable_set s) (frames_of (history_list s)) = None"
    unfolding Evict_fst [OF inv] by (auto split: option.splits)
  also have "\<dots> \<longleftrightarrow> (\<forall>f \<in> set (frames_of (inf_history_list s)) \<union> set (frames_of (history_list s)).
      f \<in> non_evictable_set s)"
    by (auto simp: find_None_iff)
  also have "\<dots> \<longleftrightarrow> dom (count_map s) \<subseteq> non_evictable_set s"
    unfolding tr by blast
  finally show ?thesis .
qed

lemma scenario_ABA:
  assumes "A \<noteq> B" "0 \<le> A" "nat A < unat n" "0 \<le> B" "nat B < unat n"
  shows "case apply_calls (LRUKReplacer_init n 2) [CallRecordAccess A, CallRecordAccess B, CallRecordAccess A] of
     Inl e \<Rightarrow> False
   | Inr s \<Rightarrow> frames_of (inf_history_list s) = [B] \<and> frames_of (history_list s) = [A] \<and> fst (Evict s) = Some B"
  using assms
  by (simp add: RecordAccess_def LRUKReplacer_init_def frame_in_range_def list_erase_def Evict_def frames_of_def)



subsection \<open>The order of the history lists\<close>

lemma apply_calls_append:
  "apply_calls s (cs @ ds) =
     (case apply_calls s cs of Inl e \<Rightarrow> Inl e | Inr s' \<Rightarrow> apply_calls s' ds)"
  by (induction cs arbitrary: s) (auto split: sum.splits)

lemma apply_calls_snoc:
  "apply_calls s (cs @ [c]) = Inr s'' \<longleftrightarrow>
     (\<exists>s'. apply_calls s cs = Inr s' \<and> apply_call s' c = Inr s'')"
  by (auto simp: apply_calls_append split: sum.splits)

lemma access_times_snoc:
  "access_times (cs @ [c]) f =
     access_times cs f \<union> (if c = CallRecordAccess f then {length cs} else {})"
  by (auto simp: access_times_def nth_append less_Suc_eq)

lemma first_access_times_snoc:
  assumes "apply_calls s0 cs = Inr s"
  shows "first_access_times s0 (cs @ [c]) f =
     first_access_times s0 cs f
       \<union> (if c = CallRecordAccess f \<and> count_map s f = None then {length cs} else {})"
  using assms by (auto simp: first_access_times_def nth_append less_Suc_eq)

lemma finite_access_times [simp]: "finite (access_times cs f)"
  by (simp add: access_times_def)

lemma finite_first_access_times [simp]: "finite (first_access_times s0 cs f)"
  by (simp add: first_access_times_def)

lemma access_times_less: "i \<in> access_times cs f \<Longrightarrow> i < length cs"
  by (simp add: access_times_def)

lemma first_access_times_less: "i \<in> first_access_times s0 cs f \<Longrightarrow> i < length cs"
  by (simp add: first_access_times_def)

lemma last_access_less: "access_times cs f \<noteq> {} \<Longrightarrow> last_access cs f < length cs"
  unfolding last_access_def using Max_in [of "access_times cs f"] access_times_less by auto

lemma first_access_less:
  "first_access_times s0 cs f \<noteq> {} \<Longrightarrow> first_access s0 cs f < length cs"
  unfolding first_access_def using Max_in [of "first_access_times s0 cs f"] first_access_times_less
  by auto

lemma Max_insert_new:
  assumes "finite A" "\<forall>i \<in> A. i < (n::nat)"
  shows "Max (A \<union> {n}) = n"
proof -
  have "Max (insert n A) = n"
  proof (cases "A = {}")
    case True
    then show ?thesis by simp
  next
    case False
    with assms have lt: "Max A < n" by simp
    have "Max (insert n A) = max n (Max A)" using assms(1) False by simp
    with lt show ?thesis by (simp add: max_def)
  qed
  then show ?thesis by simp
qed

lemma last_access_snoc:
  "last_access (cs @ [c]) f = (if c = CallRecordAccess f then length cs else last_access cs f)"
  unfolding last_access_def access_times_snoc
  using Max_insert_new [of "access_times cs f" "length cs"] access_times_less
  by auto

lemma first_access_snoc:
  assumes "apply_calls s0 cs = Inr s"
  shows "first_access s0 (cs @ [c]) f =
    (if c = CallRecordAccess f \<and> count_map s f = None then length cs else first_access s0 cs f)"
  unfolding first_access_def first_access_times_snoc [OF assms]
  using Max_insert_new [of "first_access_times s0 cs f" "length cs"] first_access_times_less
  by auto


lemma inv_distinct_frames:
  assumes "replacer_inv s"
  shows "distinct (frames_of (inf_history_list s))" "distinct (frames_of (history_list s))"
    "set (frames_of (inf_history_list s)) \<inter> set (frames_of (history_list s)) = {}"
  using assms by (simp_all add: replacer_inv_def)

lemma frames_of_erase:
  assumes "distinct (frames_of l)" "(i, f) \<in> set l"
  shows "frames_of (remove1 (i, f) l) = removeAll f (frames_of l)"
  using frames_of_remove1_removeAll [OF assms] by simp

lemma RecordAccess_effect:
  assumes inv: "replacer_inv s" and ra: "RecordAccess s f = Inr s'"
  shows "lru_k s' = lru_k s \<and>
    (case count_map s f of
       None \<Rightarrow>
         frames_of (inf_history_list s') = frames_of (inf_history_list s) @ [f]
         \<and> frames_of (history_list s') = frames_of (history_list s)
         \<and> count_map s' = (count_map s)(f \<mapsto> 1)
     | Some c \<Rightarrow>
         count_map s' = (count_map s)(f \<mapsto> c + 1)
         \<and> (if c \<ge> lru_k s then
               frames_of (inf_history_list s') = frames_of (inf_history_list s)
               \<and> frames_of (history_list s') = removeAll f (frames_of (history_list s)) @ [f]
             else if c + 1 \<ge> lru_k s then
               frames_of (inf_history_list s') = removeAll f (frames_of (inf_history_list s))
               \<and> frames_of (history_list s') = frames_of (history_list s) @ [f]
             else
               frames_of (inf_history_list s') = frames_of (inf_history_list s)
               \<and> frames_of (history_list s') = frames_of (history_list s)))"
proof -
  from ra have inr: "frame_in_range s f" by (auto simp: RecordAccess_def split: if_splits)
  note d = inv_distinct_frames [OF inv]
  show ?thesis
  proof (cases "count_map s f")
    case None
    with ra inr show ?thesis by (auto simp: RecordAccess_def)
  next
    case (Some c)
    consider (touch) "c \<ge> lru_k s" | (promote) "c < lru_k s" "c + 1 \<ge> lru_k s"
      | (count) "c + 1 < lru_k s" by linarith
    then show ?thesis
    proof cases
      case touch
      with ra inr Some obtain l where l: "list_erase (history_iter_map s f) (history_list s) = Inr l"
        and s': "s' = s\<lparr>history_list := l @ [(next_node s, f)],
                           history_iter_map := (history_iter_map s)(f \<mapsto> next_node s),
                           count_map := (count_map s)(f \<mapsto> c + 1),
                           next_node := Suc (next_node s)\<rparr>"
        by (auto simp: RecordAccess_def split: sum.splits)
      from inv l obtain i where i: "(i, f) \<in> set (history_list s)" "l = remove1 (i, f) (history_list s)"
        by (rule erase_iter_hist)
      from frames_of_erase [OF d(2) i(1)] Some touch show ?thesis
        unfolding s' i(2) by simp
    next
      case promote
      with ra inr Some obtain l where l: "list_erase (inf_history_iter_map s f) (inf_history_list s) = Inr l"
        and s': "s' = s\<lparr>count_map := (count_map s)(f \<mapsto> c + 1),
                           inf_history_list := l,
                           history_list := history_list s @ [(next_node s, f)],
                           history_iter_map := (history_iter_map s)(f \<mapsto> next_node s),
                           next_node := Suc (next_node s)\<rparr>"
        by (auto simp: RecordAccess_def split: sum.splits)
      from inv l obtain i where i: "(i, f) \<in> set (inf_history_list s)" "l = remove1 (i, f) (inf_history_list s)"
        by (rule erase_iter_inf)
      from frames_of_erase [OF d(1) i(1)] Some promote show ?thesis
        unfolding s' i(2) by simp
    next
      case count
      with ra inr Some show ?thesis by (auto simp: RecordAccess_def)
    qed
  qed
qed

lemma Remove_effect:
  assumes inv: "replacer_inv s" and rm: "Remove s f = Inr s'"
  shows "s' = s \<or>
    (lru_k s' = lru_k s \<and> count_map s' = (count_map s)(f := None)
     \<and> frames_of (inf_history_list s') = removeAll f (frames_of (inf_history_list s))
     \<and> frames_of (history_list s') = removeAll f (frames_of (history_list s)))"
proof (cases "count_map s f")
  case None
  with rm show ?thesis by (auto simp: Remove_def split: if_splits)
next
  case (Some c)
  note d = inv_distinct_frames [OF inv]
  show ?thesis
  proof (cases "f \<in> non_evictable_set s")
    case True
    with rm Some show ?thesis by (auto simp: Remove_def split: if_splits)
  next
    case ev: False
    show ?thesis
    proof (cases "c \<ge> lru_k s")
      case True
      with rm Some ev obtain l where l: "list_erase (history_iter_map s f) (history_list s) = Inr l"
        and s': "s' = s\<lparr>history_list := l,
                           history_iter_map := (history_iter_map s)(f := None),
                           count_map := (count_map s)(f := None),
                           curr_size := curr_size s - 1\<rparr>"
        by (auto simp: Remove_def split: if_splits sum.splits)
      from inv l obtain i where i: "(i, f) \<in> set (history_list s)" "l = remove1 (i, f) (history_list s)"
        by (rule erase_iter_hist)
      have "f \<notin> set (frames_of (inf_history_list s))" using d(3) frames_of_mem [OF i(1)] by auto
      then have "removeAll f (frames_of (inf_history_list s)) = frames_of (inf_history_list s)"
        by (rule removeAll_notin)
      with frames_of_erase [OF d(2) i(1)] show ?thesis unfolding s' i(2) by simp
    next
      case False
      with rm Some ev obtain l where l: "list_erase (inf_history_iter_map s f) (inf_history_list s) = Inr l"
        and s': "s' = s\<lparr>inf_history_list := l,
                           inf_history_iter_map := (inf_history_iter_map s)(f := None),
                           count_map := (count_map s)(f := None),
                           curr_size := curr_size s - 1\<rparr>"
        by (auto simp: Remove_def split: if_splits sum.splits)
      from inv l obtain i where i: "(i, f) \<in> set (inf_history_list s)" "l = remove1 (i, f) (inf_history_list s)"
        by (rule erase_iter_inf)
      have "f \<notin> set (frames_of (history_list s))" using d(3) frames_of_mem [OF i(1)] by auto
      then have "removeAll f (frames_of (history_list s)) = frames_of (history_list s)"
        by (rule removeAll_notin)
      with frames_of_erase [OF d(1) i(1)] show ?thesis unfolding s' i(2) by simp
    qed
  qed
qed

lemma SetEvictable_effect:
  assumes "SetEvictable s f b = Inr s'"
  shows "lru_k s' = lru_k s \<and> count_map s' = count_map s
    \<and> inf_history_list s' = inf_history_list s \<and> history_list s' = history_list s"
  using assms by (auto simp: SetEvictable_def Let_def split: if_splits)

lemma Evict_effect:
  assumes inv: "replacer_inv s"
  shows "snd (Evict s) = s \<or>
    (\<exists>f. lru_k (snd (Evict s)) = lru_k s \<and> count_map (snd (Evict s)) = (count_map s)(f := None)
     \<and> frames_of (inf_history_list (snd (Evict s))) = removeAll f (frames_of (inf_history_list s))
     \<and> frames_of (history_list (snd (Evict s))) = removeAll f (frames_of (history_list s)))"
proof (cases "fst (Evict s)")
  case None
  then show ?thesis by (simp add: Evict_None)
next
  case (Some f)
  have "lru_k (snd (Evict s)) = lru_k s"
    by (auto simp: Evict_def split: option.splits)
  with Evict_Some [OF inv Some] show ?thesis by blast
qed

text \<open>Every call either leaves lists and counts alone, untracks one frame, or is an access.\<close>

lemma apply_call_effect:
  assumes inv: "replacer_inv s" and c: "apply_call s c = Inr s'"
  shows "lru_k s' = lru_k s \<and>
    ((\<exists>f. c = CallRecordAccess f)
     \<or> (\<forall>f. c \<noteq> CallRecordAccess f) \<and>
        (count_map s' = count_map s
           \<and> frames_of (inf_history_list s') = frames_of (inf_history_list s)
           \<and> frames_of (history_list s') = frames_of (history_list s)
         \<or> (\<exists>g. count_map s' = (count_map s)(g := None)
           \<and> frames_of (inf_history_list s') = removeAll g (frames_of (inf_history_list s))
           \<and> frames_of (history_list s') = removeAll g (frames_of (history_list s)))))"
proof (cases c)
  case (CallRecordAccess f)
  with c RecordAccess_effect [OF inv, of f s'] show ?thesis by simp
next
  case (CallSetEvictable f b)
  with c SetEvictable_effect [of s f b s'] show ?thesis by simp
next
  case (CallRemove f)
  with c Remove_effect [OF inv, of f s'] show ?thesis by auto
next
  case CallEvict
  with c Evict_effect [OF inv] show ?thesis by auto
qed


lemma count_inv_init: "count_inv (LRUKReplacer_init n k)"
  by (simp add: count_inv_def LRUKReplacer_init_def)

lemma in_removeAll_iff: "x \<in> set (removeAll y xs) \<longleftrightarrow> x \<in> set xs \<and> x \<noteq> y"
  by auto

lemma count_inv_apply_call:
  assumes inv: "replacer_inv s" and ci: "count_inv s" and c: "apply_call s c = Inr s'"
  shows "count_inv s'"
proof (cases c)
  case (CallRecordAccess f)
  with c have ra: "RecordAccess s f = Inr s'" by simp
  note eff = RecordAccess_effect [OF inv ra]
  show ?thesis
  proof (cases "count_map s f")
    case None
    with eff ci show ?thesis by (auto simp: count_inv_def)
  next
    case (Some c0)
    with ci have c0: "1 \<le> c0" by (auto simp: count_inv_def)
    from eff Some ci c0 show ?thesis
      unfolding count_inv_def
      by (auto simp: in_removeAll_iff split: if_splits)
  qed
next
  case (CallSetEvictable f b)
  with c SetEvictable_effect [of s f b s'] ci show ?thesis by (simp add: count_inv_def frames_of_def)
next
  case (CallRemove f)
  with c Remove_effect [OF inv, of f s'] ci show ?thesis
    by (auto simp: count_inv_def in_removeAll_iff split: if_splits)
next
  case CallEvict
  with c Evict_effect [OF inv] ci show ?thesis
    by (auto simp: count_inv_def in_removeAll_iff split: if_splits)
qed

lemma invs_apply_calls:
  assumes "replacer_inv s" "count_inv s" "apply_calls s cs = Inr s'"
  shows "replacer_inv s' \<and> count_inv s'"
  using assms
proof (induction cs arbitrary: s)
  case Nil
  then show ?case by simp
next
  case (Cons c cs)
  from Cons.prems(3) obtain s1 where s1: "apply_call s c = Inr s1" "apply_calls s1 cs = Inr s'"
    by (auto split: sum.splits)
  have "replacer_inv s1" using Cons.prems(1) s1(1) by (rule inv_apply_call)
  moreover have "count_inv s1" using Cons.prems(1,2) s1(1) by (rule count_inv_apply_call)
  ultimately show ?case using s1(2) by (rule Cons.IH)
qed

lemma sorted_key_cong:
  assumes "sorted_wrt (\<lambda>f g. k f < (k g :: nat)) xs" "\<forall>x \<in> set xs. k' x = k x"
  shows "sorted_wrt (\<lambda>f g. k' f < k' g) xs"
  using assms(1) by (rule sorted_wrt_mono_rel [rotated]) (use assms(2) in auto)

lemma sorted_key_removeAll:
  "sorted_wrt (\<lambda>f g. k f < (k g :: nat)) xs \<Longrightarrow> sorted_wrt (\<lambda>f g. k f < k g) (removeAll x xs)"
  by (simp add: removeAll_filter_not_eq sorted_wrt_filter)

lemma sorted_key_snoc:
  assumes "sorted_wrt (\<lambda>f g. k f < (k g :: nat)) xs" "\<forall>x \<in> set xs. k x < k y"
  shows "sorted_wrt (\<lambda>f g. k f < k g) (xs @ [y])"
  using assms by (simp add: sorted_wrt_append)

lemma find_sorted_least:
  "find P xs = Some f \<Longrightarrow> sorted_wrt R xs \<Longrightarrow> \<forall>g \<in> set xs. P g \<longrightarrow> g = f \<or> R f g"
  by (induction xs) (auto split: if_splits)

lemma order_inv_step:
  assumes inv: "replacer_inv s" and ci: "count_inv s" and run: "apply_calls s0 cs = Inr s"
    and oi: "order_inv s0 cs s" and c: "apply_call s c = Inr s'"
  shows "order_inv s0 (cs @ [c]) s'"
proof -
  let ?la = "last_access cs" and ?la' = "last_access (cs @ [c])"
  let ?fa = "first_access s0 cs" and ?fa' = "first_access s0 (cs @ [c])"
  let ?H = "frames_of (history_list s)" and ?I = "frames_of (inf_history_list s)"
  from oi have sh: "sorted_wrt (\<lambda>f g. ?la f < ?la g) ?H"
    and nh: "\<forall>f \<in> set ?H. access_times cs f \<noteq> {}"
    and si: "sorted_wrt (\<lambda>f g. ?fa f < ?fa g) ?I"
    and ni: "\<forall>f \<in> set ?I. first_access_times s0 cs f \<noteq> {}"
    by (simp_all add: order_inv_def)
  have at_mono: "\<And>g. access_times cs g \<noteq> {} \<Longrightarrow> access_times (cs @ [c]) g \<noteq> {}"
    by (auto simp: access_times_snoc)
  have ft_mono: "\<And>g. first_access_times s0 cs g \<noteq> {} \<Longrightarrow> first_access_times s0 (cs @ [c]) g \<noteq> {}"
    by (auto simp: first_access_times_snoc [OF run])
  note d = inv_distinct_frames [OF inv]
  from inv have tr: "set ?I \<union> set ?H = dom (count_map s)" by (simp add: replacer_inv_def)
  show ?thesis
  proof (cases "\<exists>f. c = CallRecordAccess f")
    case False
    then have la: "\<And>g. ?la' g = ?la g" and fa: "\<And>g. ?fa' g = ?fa g"
      by (auto simp: last_access_snoc first_access_snoc [OF run])
    from apply_call_effect [OF inv c] False
    consider (same) "frames_of (inf_history_list s') = ?I" "frames_of (history_list s') = ?H"
      | (untrack) g where "frames_of (inf_history_list s') = removeAll g ?I"
          "frames_of (history_list s') = removeAll g ?H"
      by blast
    then show ?thesis
    proof cases
      case same
      with sh si nh ni at_mono ft_mono show ?thesis by (simp add: order_inv_def la fa)
    next
      case untrack
      with sorted_key_removeAll [OF sh, of g] sorted_key_removeAll [OF si, of g] nh ni at_mono ft_mono
      show ?thesis by (simp add: order_inv_def la fa)
    qed
  next
    case True
    then obtain f where cf: "c = CallRecordAccess f" by blast
    with c have ra: "RecordAccess s f = Inr s'" by simp
    note eff = RecordAccess_effect [OF inv ra]
    have la: "\<And>g. ?la' g = (if g = f then length cs else ?la g)"
      by (simp add: last_access_snoc cf)
    have fa: "\<And>g. ?fa' g = (if g = f \<and> count_map s f = None then length cs else ?fa g)"
      by (auto simp: first_access_snoc [OF run] cf)
    have atf: "access_times (cs @ [c]) f \<noteq> {}" by (simp add: access_times_snoc cf)
    have la_lt: "\<And>g. g \<in> set ?H \<Longrightarrow> ?la g < length cs" using nh last_access_less by blast
    have fa_lt: "\<And>g. g \<in> set ?I \<Longrightarrow> ?fa g < length cs" using ni first_access_less by blast
    have touch_sorted: "sorted_wrt (\<lambda>f g. ?la' f < ?la' g) (removeAll f ?H @ [f])"
    proof (rule sorted_key_snoc)
      have "sorted_wrt (\<lambda>f g. ?la f < ?la g) (removeAll f ?H)" using sh by (rule sorted_key_removeAll)
      then show "sorted_wrt (\<lambda>f g. ?la' f < ?la' g) (removeAll f ?H)"
        by (rule sorted_key_cong) (simp add: la)
      show "\<forall>x \<in> set (removeAll f ?H). ?la' x < ?la' f" using la_lt by (simp add: la)
    qed
    have touch_ne: "\<forall>g \<in> set (removeAll f ?H @ [f]). access_times (cs @ [c]) g \<noteq> {}"
      using nh at_mono atf by auto
    show ?thesis
    proof (cases "count_map s f")
      case None
      then have nf: "f \<notin> set ?I" "f \<notin> set ?H" using tr by auto
      from eff None have I': "frames_of (inf_history_list s') = ?I @ [f]"
        and H': "frames_of (history_list s') = ?H" by simp_all
      have ftf: "first_access_times s0 (cs @ [c]) f \<noteq> {}"
        using None by (simp add: first_access_times_snoc [OF run] cf)
      have "sorted_wrt (\<lambda>f g. ?la' f < ?la' g) ?H"
        using sh by (rule sorted_key_cong) (use nf in \<open>auto simp: la\<close>)
      moreover have "sorted_wrt (\<lambda>f g. ?fa' f < ?fa' g) (?I @ [f])"
      proof (rule sorted_key_snoc)
        show "sorted_wrt (\<lambda>f g. ?fa' f < ?fa' g) ?I"
          using si by (rule sorted_key_cong) (use nf in \<open>auto simp: fa\<close>)
        show "\<forall>x \<in> set ?I. ?fa' x < ?fa' f" using fa_lt nf None by (auto simp: fa)
      qed
      ultimately show ?thesis
        unfolding order_inv_def I' H' using nh ni at_mono ft_mono ftf by auto
    next
      case (Some c0)
      then have fa_same: "\<And>g. ?fa' g = ?fa g" by (simp add: fa)
      have inf_sorted: "sorted_wrt (\<lambda>f g. ?fa' f < ?fa' g) ?I"
        "sorted_wrt (\<lambda>f g. ?fa' f < ?fa' g) (removeAll f ?I)"
        using si sorted_key_removeAll [OF si, of f] by (simp_all add: fa_same)
      have inf_ne: "\<forall>g \<in> set ?I. first_access_times s0 (cs @ [c]) g \<noteq> {}"
        "\<forall>g \<in> set (removeAll f ?I). first_access_times s0 (cs @ [c]) g \<noteq> {}"
        using ni ft_mono by auto
      consider (touch) "c0 \<ge> lru_k s" | (promote) "c0 < lru_k s" "c0 + 1 \<ge> lru_k s"
        | (count) "c0 + 1 < lru_k s" by linarith
      then show ?thesis
      proof cases
        case touch
        with eff Some have "frames_of (inf_history_list s') = ?I"
          "frames_of (history_list s') = removeAll f ?H @ [f]" by simp_all
        with touch_sorted touch_ne inf_sorted inf_ne show ?thesis by (simp add: order_inv_def)
      next
        case promote
        with ci Some have "f \<in> set ?I" by (auto simp: count_inv_def)
        with d(3) have "f \<notin> set ?H" by auto
        then have "removeAll f ?H = ?H" by (rule removeAll_notin)
        with eff Some promote have "frames_of (inf_history_list s') = removeAll f ?I"
          "frames_of (history_list s') = removeAll f ?H @ [f]" by simp_all
        with touch_sorted touch_ne inf_sorted inf_ne show ?thesis by (simp add: order_inv_def)
      next
        case count
        with ci Some have "f \<in> set ?I" by (auto simp: count_inv_def)
        with d(3) have nf: "f \<notin> set ?H" by auto
        from eff Some count have I': "frames_of (inf_history_list s') = ?I"
          and H': "frames_of (history_list s') = ?H" by simp_all
        have "sorted_wrt (\<lambda>f g. ?la' f < ?la' g) ?H"
          using sh by (rule sorted_key_cong) (use nf in \<open>auto simp: la\<close>)
        with inf_sorted inf_ne nh at_mono show ?thesis
          unfolding order_inv_def I' H' by auto
      qed
    qed
  qed
qed

lemma order_inv_run:
  assumes "apply_calls (LRUKReplacer_init n k) cs = Inr s"
  shows "order_inv (LRUKReplacer_init n k) cs s"
  using assms
proof (induction cs arbitrary: s rule: rev_induct)
  case Nil
  then show ?case by (auto simp: order_inv_def LRUKReplacer_init_def frames_of_def)
next
  case (snoc c cs)
  from snoc.prems obtain s1 where s1: "apply_calls (LRUKReplacer_init n k) cs = Inr s1"
    "apply_call s1 c = Inr s"
    unfolding apply_calls_snoc by blast
  have invs: "replacer_inv s1 \<and> count_inv s1"
    using inv_init count_inv_init s1(1) by (rule invs_apply_calls)
  from invs s1(1) snoc.IH [OF s1(1)] s1(2) show ?case
    by (intro order_inv_step) simp_all
qed

lemma lru_k_apply_calls:
  assumes "replacer_inv s" "apply_calls s cs = Inr s'"
  shows "lru_k s' = lru_k s"
  using assms
proof (induction cs arbitrary: s)
  case Nil
  then show ?case by simp
next
  case (Cons c cs)
  from Cons.prems(2) obtain s1 where s1: "apply_call s c = Inr s1" "apply_calls s1 cs = Inr s'"
    by (auto split: sum.splits)
  have "replacer_inv s1" using Cons.prems(1) s1(1) by (rule inv_apply_call)
  from Cons.IH [OF this s1(2)] apply_call_effect [OF Cons.prems(1) s1(1)] show ?case by simp
qed

text \<open>
  For \<open>k\<close> of at least 2 the lists follow the counts in every state a replacer can be in:
  a tracked frame is on the infinite-history list exactly when its count is below \<open>k\<close>
  and on the history list exactly when it is not.
\<close>

lemma lists_follow_counts:
  assumes run: "apply_calls (LRUKReplacer_init num_frames k) cs = Inr s" and k: "2 \<le> k"
    and f: "count_map s f = Some c"
  shows "(f \<in> set (frames_of (inf_history_list s)) \<longleftrightarrow> c < k)
    \<and> (f \<in> set (frames_of (history_list s)) \<longleftrightarrow> k \<le> c)"
proof -
  have invs: "replacer_inv s \<and> count_inv s"
    using inv_init count_inv_init run by (rule invs_apply_calls)
  have "lru_k s = lru_k (LRUKReplacer_init num_frames k)"
    using inv_init run by (rule lru_k_apply_calls)
  then have lk: "lru_k s = k" by (simp add: LRUKReplacer_init_def)
  from invs f lk k have a: "c < k \<longrightarrow> f \<in> set (frames_of (inf_history_list s))"
    and b: "k \<le> c \<longrightarrow> f \<in> set (frames_of (history_list s))"
    by (auto simp: count_inv_def)
  from invs have "set (frames_of (inf_history_list s)) \<inter> set (frames_of (history_list s)) = {}"
    by (simp add: inv_distinct_frames)
  with a b show ?thesis by (cases "c < k") auto
qed

lemma Evict_victim_least:
  assumes inv: "replacer_inv s" and ev: "fst (Evict s) = Some f"
    and si: "sorted_wrt R (frames_of (inf_history_list s))"
    and sh: "sorted_wrt Q (frames_of (history_list s))"
  shows "(f \<in> set (frames_of (inf_history_list s)) \<longrightarrow>
           (\<forall>g \<in> set (frames_of (inf_history_list s)). g \<notin> non_evictable_set s \<longrightarrow> g = f \<or> R f g))
    \<and> (f \<in> set (frames_of (history_list s)) \<longrightarrow>
           (\<forall>g \<in> set (frames_of (inf_history_list s)). g \<in> non_evictable_set s)
         \<and> (\<forall>g \<in> set (frames_of (history_list s)). g \<notin> non_evictable_set s \<longrightarrow> g = f \<or> Q f g))"
proof -
  let ?P = "\<lambda>f. f \<notin> non_evictable_set s"
  let ?I = "frames_of (inf_history_list s)" and ?H = "frames_of (history_list s)"
  have dis: "set ?I \<inter> set ?H = {}" using inv by (simp add: inv_distinct_frames)
  from Evict_fst [OF inv] ev
  have res: "(case find ?P ?I of Some f \<Rightarrow> Some f | None \<Rightarrow> find ?P ?H) = Some f" by simp
  show ?thesis
  proof (cases "find ?P ?I")
    case None
    with res have fh: "find ?P ?H = Some f" by simp
    then have "f \<in> set ?H" by (auto simp: find_Some_iff)
    with dis have nf: "f \<notin> set ?I" by auto
    from None have "\<forall>g \<in> set ?I. g \<in> non_evictable_set s" by (simp add: find_None_iff)
    with nf find_sorted_least [OF fh sh] show ?thesis by blast
  next
    case (Some f')
    with res have fi: "find ?P ?I = Some f" by simp
    then have "f \<in> set ?I" by (auto simp: find_Some_iff)
    with dis have nf: "f \<notin> set ?H" by auto
    with find_sorted_least [OF fi si] show ?thesis by blast
  qed
qed

text \<open>
  C6. In every state reached by \<open>RecordAccess\<close>, \<open>SetEvictable\<close>, \<open>Remove\<close> and
  \<open>Evict\<close> calls from the constructor's state, \<open>Evict\<close> returns the first frame of the
  infinite-history list that is not in the non-evictable set; if there is none, the first
  such frame of the history list; and nothing exactly when no tracked frame is evictable,
  in which case the state is unchanged. On success the victim was tracked and evictable,
  it is erased from the count map and from the lists (the other frames keep their order),
  and \<open>curr_size\<close>, which was not zero, decreases by one. The infinite-history list is in
  the order of first access and the history list in the order of last access, oldest
  first, so that a victim from the infinite-history list is the evictable frame there
  that was first accessed the longest ago, and a victim from the history list the
  least recently accessed evictable frame there. With \<open>k = 2\<close> and the accesses
  \<open>A, B, A\<close> of two different frames, \<open>B\<close> is alone in the infinite-history list,
  \<open>A\<close> alone in the history list, and \<open>Evict\<close> returns \<open>B\<close>.
\<close>

theorem Evict_victim:
  assumes run: "apply_calls (LRUKReplacer_init num_frames k) cs = Inr s"
  shows "fst (Evict s) =
           (case find (\<lambda>f. f \<notin> non_evictable_set s) (frames_of (inf_history_list s)) of
              Some f \<Rightarrow> Some f
            | None \<Rightarrow> find (\<lambda>f. f \<notin> non_evictable_set s) (frames_of (history_list s)))
       \<and> (fst (Evict s) = None \<longleftrightarrow> dom (count_map s) \<subseteq> non_evictable_set s)
       \<and> (fst (Evict s) = None \<longrightarrow> snd (Evict s) = s)
       \<and> (\<forall>f. fst (Evict s) = Some f \<longrightarrow>
             f \<in> dom (count_map s) \<and> f \<notin> non_evictable_set s
           \<and> count_map (snd (Evict s)) = (count_map s)(f := None)
           \<and> frames_of (inf_history_list (snd (Evict s))) = removeAll f (frames_of (inf_history_list s))
           \<and> frames_of (history_list (snd (Evict s))) = removeAll f (frames_of (history_list s))
           \<and> non_evictable_set (snd (Evict s)) = non_evictable_set s
           \<and> curr_size s \<noteq> 0 \<and> curr_size (snd (Evict s)) = curr_size s - 1)
       \<and> (\<forall>A B. A \<noteq> B \<and> 0 \<le> A \<and> nat A < unat num_frames \<and> 0 \<le> B \<and> nat B < unat num_frames \<longrightarrow>
             (case apply_calls (LRUKReplacer_init num_frames 2)
                     [CallRecordAccess A, CallRecordAccess B, CallRecordAccess A] of
                Inl e \<Rightarrow> False
              | Inr s3 \<Rightarrow> frames_of (inf_history_list s3) = [B] \<and> frames_of (history_list s3) = [A]
                    \<and> fst (Evict s3) = Some B))
       \<and> order_inv (LRUKReplacer_init num_frames k) cs s
       \<and> (\<forall>f. fst (Evict s) = Some f \<longrightarrow>
            (f \<in> set (frames_of (inf_history_list s)) \<longrightarrow>
               (\<forall>g \<in> set (frames_of (inf_history_list s)). g \<notin> non_evictable_set s \<longrightarrow>
                  g = f \<or> first_access (LRUKReplacer_init num_frames k) cs f
                            < first_access (LRUKReplacer_init num_frames k) cs g))
          \<and> (f \<in> set (frames_of (history_list s)) \<longrightarrow>
               (\<forall>g \<in> set (frames_of (inf_history_list s)). g \<in> non_evictable_set s)
             \<and> (\<forall>g \<in> set (frames_of (history_list s)). g \<notin> non_evictable_set s \<longrightarrow>
                  g = f \<or> last_access cs f < last_access cs g)))"
proof -
  have inv: "replacer_inv s" using inv_init run by (rule inv_apply_calls)
  have oi: "order_inv (LRUKReplacer_init num_frames k) cs s" using run by (rule order_inv_run)
  then have si: "sorted_wrt (\<lambda>f g. first_access (LRUKReplacer_init num_frames k) cs f
                            < first_access (LRUKReplacer_init num_frames k) cs g)
                   (frames_of (inf_history_list s))"
    and sh: "sorted_wrt (\<lambda>f g. last_access cs f < last_access cs g) (frames_of (history_list s))"
    by (simp_all add: order_inv_def)
  have least: "\<forall>f. fst (Evict s) = Some f \<longrightarrow>
            (f \<in> set (frames_of (inf_history_list s)) \<longrightarrow>
               (\<forall>g \<in> set (frames_of (inf_history_list s)). g \<notin> non_evictable_set s \<longrightarrow>
                  g = f \<or> first_access (LRUKReplacer_init num_frames k) cs f
                            < first_access (LRUKReplacer_init num_frames k) cs g))
          \<and> (f \<in> set (frames_of (history_list s)) \<longrightarrow>
               (\<forall>g \<in> set (frames_of (inf_history_list s)). g \<in> non_evictable_set s)
             \<and> (\<forall>g \<in> set (frames_of (history_list s)). g \<notin> non_evictable_set s \<longrightarrow>
                  g = f \<or> last_access cs f < last_access cs g))"
    using Evict_victim_least [OF inv _ si sh] by blast
  have basic: "fst (Evict s) =
           (case find (\<lambda>f. f \<notin> non_evictable_set s) (frames_of (inf_history_list s)) of
              Some f \<Rightarrow> Some f
            | None \<Rightarrow> find (\<lambda>f. f \<notin> non_evictable_set s) (frames_of (history_list s)))
       \<and> (fst (Evict s) = None \<longleftrightarrow> dom (count_map s) \<subseteq> non_evictable_set s)
       \<and> (fst (Evict s) = None \<longrightarrow> snd (Evict s) = s)
       \<and> (\<forall>f. fst (Evict s) = Some f \<longrightarrow>
             f \<in> dom (count_map s) \<and> f \<notin> non_evictable_set s
           \<and> count_map (snd (Evict s)) = (count_map s)(f := None)
           \<and> frames_of (inf_history_list (snd (Evict s))) = removeAll f (frames_of (inf_history_list s))
           \<and> frames_of (history_list (snd (Evict s))) = removeAll f (frames_of (history_list s))
           \<and> non_evictable_set (snd (Evict s)) = non_evictable_set s
           \<and> curr_size s \<noteq> 0 \<and> curr_size (snd (Evict s)) = curr_size s - 1)
       \<and> (\<forall>A B. A \<noteq> B \<and> 0 \<le> A \<and> nat A < unat num_frames \<and> 0 \<le> B \<and> nat B < unat num_frames \<longrightarrow>
             (case apply_calls (LRUKReplacer_init num_frames 2)
                     [CallRecordAccess A, CallRecordAccess B, CallRecordAccess A] of
                Inl e \<Rightarrow> False
              | Inr s3 \<Rightarrow> frames_of (inf_history_list s3) = [B] \<and> frames_of (history_list s3) = [A]
                    \<and> fst (Evict s3) = Some B))"
    using Evict_fst [OF inv] Evict_None_iff [OF inv] Evict_None [of s] Evict_Some [OF inv]
      scenario_ABA [of _ _ num_frames]
    by blast
  from basic oi least show ?thesis by (elim conjE, intro conjI) assumption+
qed

theorem Evict_victim_witness:
  "apply_calls (LRUKReplacer_init 2 2) [CallRecordAccess 0, CallRecordAccess 1, CallRecordAccess 0]
     = Inr ABA_state
   \<and> fst (Evict ABA_state) = Some 1
   \<and> frames_of (inf_history_list (snd (Evict ABA_state))) = []
   \<and> frames_of (history_list (snd (Evict ABA_state))) = [0]
   \<and> curr_size (snd (Evict ABA_state)) = 1"
proof -
  have run: "apply_calls (LRUKReplacer_init 2 2)
      [CallRecordAccess 0, CallRecordAccess 1, CallRecordAccess 0] = Inr ABA_state"
    by (simp add: RecordAccess_def LRUKReplacer_init_def frame_in_range_def list_erase_def
        ABA_state_def)
  have sel: "non_evictable_set ABA_state = {}" "frames_of (inf_history_list ABA_state) = [1]"
    "frames_of (history_list ABA_state) = [0]" "curr_size ABA_state = 2"
    by (simp_all add: ABA_state_def frames_of_def)
  note E = Evict_victim [OF run]
  from E [THEN conjunct1] have v: "fst (Evict ABA_state) = Some 1" by (simp add: sel)
  from E [THEN conjunct2, THEN conjunct2, THEN conjunct2, THEN conjunct1] v
  have "frames_of (inf_history_list (snd (Evict ABA_state))) = removeAll 1 (frames_of (inf_history_list ABA_state))
      \<and> frames_of (history_list (snd (Evict ABA_state))) = removeAll 1 (frames_of (history_list ABA_state))
      \<and> curr_size (snd (Evict ABA_state)) = curr_size ABA_state - 1"
    by blast
  with v run show ?thesis by (simp add: sel)
qed

text \<open>
  C8 at \<open>k = 1\<close>. The first \<open>RecordAccess\<close> of a frame puts it on the infinite-history
  list with count 1 without comparing the count with \<open>k\<close>: the frame is tracked with a
  count that is not below \<open>k\<close>, it is on the infinite-history list and not on the history
  list. The branches of \<open>RecordAccess\<close> and \<open>Remove\<close> for a count of at least \<open>k\<close> then
  erase through the entry of \<open>history_iter_map\<close>, which was never stored.
\<close>

theorem RecordAccess_k1_first_access:
  "(case RecordAccess (LRUKReplacer_init 1 1) 0 of
      Inl e \<Rightarrow> False
    | Inr s \<Rightarrow> count_map s 0 = Some 1 \<and> lru_k s = 1
        \<and> frames_of (inf_history_list s) = [0] \<and> frames_of (history_list s) = []
        \<and> RecordAccess s 0 = Inl InvalidIterator \<and> Remove s 0 = Inl InvalidIterator)"
  by (simp add: RecordAccess_def Remove_def LRUKReplacer_init_def frame_in_range_def
      list_erase_def frames_of_def)
section \<open>Properties of the buffer pool manager\<close>

lemma NewPage_exhausted_aux:
  assumes "free_list s = []" "fst (Evict (replacer s)) = None"
  shows "NewPage s out = Inr (None, out, s)"
proof -
  from assms(2) have "snd (Evict (replacer s)) = replacer s" by (rule Evict_None)
  with assms(2) have "Evict (replacer s) = (None, replacer s)" by (simp add: prod_eq_iff)
  with assms(1) show ?thesis by (simp add: NewPage_def acquire_frame_def)
qed

lemma acquire_frame_next_page_id:
  "acquire_frame s = Inr (r, s1) \<Longrightarrow> next_page_id s1 = next_page_id s"
  by (auto simp: acquire_frame_def Let_def schedule_write_def split: if_splits prod.splits option.splits)

lemma NewPage_allocates:
  assumes "NewPage s out = Inr (Some f, pid, s')"
  shows "pid = next_page_id s"
  using assms acquire_frame_next_page_id [of s]
  by (auto simp: NewPage_def AllocatePage_def Let_def pin_in_replacer_def
      split: sum.splits option.splits prod.splits)


lemmas replacer_defs = RecordAccess_def SetEvictable_def Remove_def Evict_def
  LRUKReplacer_init_def frame_in_range_def list_erase_def

lemmas pool_defs = NewPage_def FetchPage_def UnpinPage_def DeletePage_def FlushPage_def
  acquire_frame_def pin_in_replacer_def AllocatePage_def DeallocatePage_def schedule_write_def
  schedule_read_def frame_valid_def write_bytes_def BufferPoolManager_init_def ResetMemory_def
  empty_page_def INVALID_PAGE_ID_def zeroed_disk_def

lemma PAGE_SIZE_pos: "0 < PAGE_SIZE"
  by (simp add: PAGE_SIZE_def)

lemma pin_in_replacer_frame:
  "pin_in_replacer s f = Inr s' \<Longrightarrow>
     pages s' = pages s \<and> disk s' = disk s \<and> requests s' = requests s
     \<and> page_table s' = page_table s \<and> free_list s' = free_list s
     \<and> next_page_id s' = next_page_id s \<and> deallocated s' = deallocated s"
  by (auto simp: pin_in_replacer_def split: sum.splits)

lemma acquire_dirty_victim:
  assumes "free_list s = []" "Evict (replacer s) = (Some f, r)" "frame_valid s f"
    "is_dirty (pages s ! nat f)"
  shows "acquire_frame s = Inr (Some f,
     s\<lparr>replacer := r,
       disk := (disk s)(page_id (pages s ! nat f) := data (pages s ! nat f)),
       requests := requests s @ [DiskRequest True (data (pages s ! nat f)) (page_id (pages s ! nat f))],
       page_table := (page_table s)(page_id (pages s ! nat f) := None)\<rparr>)"
  using assms by (simp add: acquire_frame_def schedule_write_def Let_def)

subsection \<open>The replacer calls of the pool return\<close>

lemma replacer_size_Evict: "replacer_size (snd (Evict s)) = replacer_size s"
  by (simp add: Evict_def split: option.splits)

lemma replacer_size_RecordAccess: "RecordAccess s f = Inr s' \<Longrightarrow> replacer_size s' = replacer_size s"
  by (auto simp: RecordAccess_def Let_def list_erase_def split: if_splits option.splits sum.splits)

lemma replacer_size_SetEvictable: "SetEvictable s f b = Inr s' \<Longrightarrow> replacer_size s' = replacer_size s"
  by (auto simp: SetEvictable_def Let_def split: if_splits)

lemma replacer_size_Remove: "Remove s f = Inr s' \<Longrightarrow> replacer_size s' = replacer_size s"
  by (auto simp: Remove_def Let_def list_erase_def split: if_splits option.splits sum.splits)

lemma RecordAccess_untracked:
  assumes "frame_in_range s f" "count_map s f = None"
  shows "\<exists>s'. RecordAccess s f = Inr s'"
  using assms by (simp add: RecordAccess_def)

lemma SetEvictable_in_range:
  assumes "frame_in_range s f"
  shows "\<exists>s'. SetEvictable s f b = Inr s'"
  using assms by (simp add: SetEvictable_def Let_def)

lemma frame_in_range_size: "replacer_size s' = replacer_size s \<Longrightarrow> frame_in_range s' f = frame_in_range s f"
  by (simp add: frame_in_range_def)

text \<open>
  A victim of \<open>Evict\<close> was tracked, so it is in range and, the state being consistent,
  untracked afterwards: the \<open>RecordAccess\<close> and \<open>SetEvictable\<close> that follow return.
\<close>

lemma Evict_victim_untracked:
  assumes inv: "replacer_inv s" and ev: "Evict s = (Some f, r)"
  shows "replacer_inv r" "frame_in_range r f" "count_map r f = None"
    "replacer_size r = replacer_size s"
proof -
  have fst: "fst (Evict s) = Some f" and r: "r = snd (Evict s)" using ev by simp_all
  show "replacer_inv r" unfolding r using inv by (rule inv_Evict)
  show sz: "replacer_size r = replacer_size s" unfolding r by (rule replacer_size_Evict)
  from Evict_Some(2) [OF inv fst] inv have "frame_in_range s f" by (simp add: replacer_inv_def)
  then show "frame_in_range r f" using sz by (simp add: frame_in_range_def)
  from Evict_Some(4) [OF inv fst] show "count_map r f = None" unfolding r by simp
qed

lemma pin_in_replacer_inv:
  assumes "pool_inv s" "pin_in_replacer s f = Inr s'"
  shows "pool_inv s'"
proof -
  from assms(2) obtain r1 r2 where r: "RecordAccess (replacer s) f = Inr r1"
    "SetEvictable r1 f False = Inr r2" "s' = s\<lparr>replacer := r2\<rparr>"
    by (auto simp: pin_in_replacer_def split: sum.splits)
  from assms(1) have inv: "replacer_inv (replacer s)" by (simp add: pool_inv_def)
  have "replacer_inv r2" using inv_RecordAccess [OF inv r(1)] r(2) by (rule inv_SetEvictable)
  moreover have "replacer_size r2 = replacer_size (replacer s)"
    using replacer_size_RecordAccess [OF r(1)] replacer_size_SetEvictable [OF r(2)] by simp
  ultimately show ?thesis using assms(1) by (simp add: pool_inv_def r(3))
qed

lemma pin_in_replacer_returns:
  assumes "frame_in_range (replacer s) f" "count_map (replacer s) f = None"
  shows "\<exists>s'. pin_in_replacer s f = Inr s'"
proof -
  from RecordAccess_untracked [OF assms] obtain r1 where r1: "RecordAccess (replacer s) f = Inr r1" ..
  from replacer_size_RecordAccess [OF r1] assms(1) have "frame_in_range r1 f"
    by (simp add: frame_in_range_def)
  from SetEvictable_in_range [OF this] obtain r2 where "SetEvictable r1 f False = Inr r2" ..
  with r1 show ?thesis by (simp add: pin_in_replacer_def)
qed

lemma pool_inv_frame_valid:
  assumes "pool_inv s" "Evict (replacer s) = (Some f, r)"
  shows "frame_valid s f"
proof -
  from assms(1) have inv: "replacer_inv (replacer s)"
    and sz: "unat (replacer_size (replacer s)) = length (pages s)" by (simp_all add: pool_inv_def)
  from Evict_victim_untracked(2,4) [OF inv assms(2)] have "frame_in_range (replacer s) f"
    by (simp add: frame_in_range_def)
  with sz show ?thesis by (simp add: frame_in_range_def frame_valid_def)
qed

subsection \<open>Eviction of a dirty victim\<close>

lemma NewPage_evicts_dirty:
  assumes inv: "pool_inv s" and fl: "free_list s = []" and ev: "Evict (replacer s) = (Some f, r)"
    and dirty: "is_dirty (pages s ! nat f)"
  shows "\<exists>s'. NewPage s out = Inr (Some f, next_page_id s, s')
    \<and> requests s' = requests s @ [DiskRequest True (data (pages s ! nat f)) (page_id (pages s ! nat f))]
    \<and> disk s' = (disk s)(page_id (pages s ! nat f) := data (pages s ! nat f))
    \<and> pages s' ! nat f =
         \<lparr>data = replicate PAGE_SIZE 0, page_id = next_page_id s, pin_count = 1, is_dirty = False\<rparr>"
proof -
  from inv have rinv: "replacer_inv (replacer s)" by (simp add: pool_inv_def)
  have fv: "frame_valid s f" using inv ev by (rule pool_inv_frame_valid)
  note u = Evict_victim_untracked [OF rinv ev]
  define s1 where "s1 = s\<lparr>replacer := r,
       disk := (disk s)(page_id (pages s ! nat f) := data (pages s ! nat f)),
       requests := requests s @ [DiskRequest True (data (pages s ! nat f)) (page_id (pages s ! nat f))],
       page_table := (page_table s)(page_id (pages s ! nat f) := None)\<rparr>"
  have acq: "acquire_frame s = Inr (Some f, s1)"
    unfolding s1_def using fl ev fv dirty by (rule acquire_dirty_victim)
  define s3 where "s3 = (snd (AllocatePage s1))\<lparr>pages := (pages (snd (AllocatePage s1)))[nat f :=
                      (ResetMemory (pages (snd (AllocatePage s1)) ! nat f))
                        \<lparr>page_id := fst (AllocatePage s1), pin_count := 1, is_dirty := False\<rparr>]\<rparr>"
  have rep: "replacer s3 = r" by (simp add: s3_def s1_def AllocatePage_def)
  have "\<exists>s4. pin_in_replacer s3 f = Inr s4"
    by (rule pin_in_replacer_returns) (simp_all add: rep u)
  then obtain s4 where s4: "pin_in_replacer s3 f = Inr s4" ..
  have np: "NewPage s out = Inr (Some f, fst (AllocatePage s1), s4\<lparr>page_table := (page_table s4)(fst (AllocatePage s1) \<mapsto> f)\<rparr>)"
    using s4 by (simp add: NewPage_def acq s3_def Let_def case_prod_beta)
  have pid: "fst (AllocatePage s1) = next_page_id s" by (simp add: AllocatePage_def s1_def)
  from pin_in_replacer_frame [OF s4] fv
  have "requests s4 = requests s @ [DiskRequest True (data (pages s ! nat f)) (page_id (pages s ! nat f))]"
    "disk s4 = (disk s)(page_id (pages s ! nat f) := data (pages s ! nat f))"
    "pages s4 ! nat f = \<lparr>data = replicate PAGE_SIZE 0, page_id = next_page_id s, pin_count = 1, is_dirty = False\<rparr>"
    by (simp_all add: s3_def s1_def AllocatePage_def ResetMemory_def frame_valid_def)
  with np pid show ?thesis by simp
qed

lemma FetchPage_evicts_dirty:
  assumes inv: "pool_inv s" and miss: "page_table s pid = None" and fl: "free_list s = []"
    and ev: "Evict (replacer s) = (Some f, r)" and dirty: "is_dirty (pages s ! nat f)"
  shows "\<exists>s'. FetchPage s pid = Inr (Some f, s')
    \<and> requests s' = requests s @ [DiskRequest True (data (pages s ! nat f)) (page_id (pages s ! nat f)),
                                  DiskRequest False (disk s' pid) pid]
    \<and> disk s' = (disk s)(page_id (pages s ! nat f) := data (pages s ! nat f))
    \<and> pages s' ! nat f = \<lparr>data = disk s' pid, page_id = pid, pin_count = 1, is_dirty = False\<rparr>"
proof -
  from inv have rinv: "replacer_inv (replacer s)" by (simp add: pool_inv_def)
  have fv: "frame_valid s f" using inv ev by (rule pool_inv_frame_valid)
  note u = Evict_victim_untracked [OF rinv ev]
  define s1 where "s1 = s\<lparr>replacer := r,
       disk := (disk s)(page_id (pages s ! nat f) := data (pages s ! nat f)),
       requests := requests s @ [DiskRequest True (data (pages s ! nat f)) (page_id (pages s ! nat f))],
       page_table := (page_table s)(page_id (pages s ! nat f) := None)\<rparr>"
  have acq: "acquire_frame s = Inr (Some f, s1)"
    unfolding s1_def using fl ev fv dirty by (rule acquire_dirty_victim)
  define s2 where "s2 = s1\<lparr>pages := (pages s1)[nat f :=
                              (ResetMemory (pages s1 ! nat f))
                                \<lparr>page_id := pid, pin_count := 1, is_dirty := False\<rparr>]\<rparr>"
  define s3 where "s3 = schedule_read s2 f (page_id (pages s2 ! nat f))"
  have rep: "replacer s3 = r" by (simp add: s3_def s2_def s1_def schedule_read_def)
  have "\<exists>s4. pin_in_replacer s3 f = Inr s4"
    by (rule pin_in_replacer_returns) (simp_all add: rep u)
  then obtain s4 where s4: "pin_in_replacer s3 f = Inr s4" ..
  have fp: "FetchPage s pid = Inr (Some f, s4\<lparr>page_table := (page_table s4)(pid \<mapsto> f)\<rparr>)"
    using s4 miss by (simp add: FetchPage_def acq s3_def s2_def Let_def)
  from pin_in_replacer_frame [OF s4] fv
  have "requests s4 = requests s @ [DiskRequest True (data (pages s ! nat f)) (page_id (pages s ! nat f)),
                                  DiskRequest False (disk s4 pid) pid]"
    "disk s4 = (disk s)(page_id (pages s ! nat f) := data (pages s ! nat f))"
    "pages s4 ! nat f = \<lparr>data = disk s4 pid, page_id = pid, pin_count = 1, is_dirty = False\<rparr>"
    by (simp_all add: s3_def s2_def s1_def schedule_read_def ResetMemory_def frame_valid_def)
  with fp show ?thesis by simp
qed

subsection \<open>The invariant of the pool\<close>

lemma pool_inv_init:
  assumes "n < 2 ^ 64"
  shows "pool_inv (BufferPoolManager_init n d k)"
proof -
  have "unat (of_nat n :: 64 word) = n" using assms by (simp add: unsigned_of_nat take_bit_nat_eq_self)
  then show ?thesis
    by (simp add: pool_inv_def BufferPoolManager_init_def inv_init) (simp add: LRUKReplacer_init_def)
qed

lemma pool_inv_cong:
  assumes "pool_inv s" "replacer s' = replacer s" "length (pages s') = length (pages s)"
    "pool_size s' = pool_size s"
  shows "pool_inv s'"
  using assms by (simp add: pool_inv_def)

lemma acquire_frame_inv:
  assumes inv: "pool_inv s" and acq: "acquire_frame s = Inr (v, s1)"
  shows "pool_inv s1"
proof (cases "free_list s = []")
  case False
  with acq have "replacer s1 = replacer s" "pages s1 = pages s" "pool_size s1 = pool_size s"
    by (auto simp: acquire_frame_def Let_def split: if_splits)
  with inv show ?thesis by (simp add: pool_inv_def)
next
  case True
  from inv have rinv: "replacer_inv (replacer s)" by (simp add: pool_inv_def)
  from True acq have "replacer s1 = snd (Evict (replacer s))" "pages s1 = pages s"
    "pool_size s1 = pool_size s"
    by (auto simp: acquire_frame_def Let_def schedule_write_def
        split: if_splits prod.splits option.splits)
  with inv inv_Evict [OF rinv] replacer_size_Evict [of "replacer s"] show ?thesis
    by (simp add: pool_inv_def)
qed

lemma NewPage_inv:
  assumes inv: "pool_inv s" and np: "NewPage s out = Inr (v, pid, s')"
  shows "pool_inv s'"
proof -
  from np obtain w s1 where acq: "acquire_frame s = Inr (w, s1)"
    by (auto simp: NewPage_def split: sum.splits)
  have i1: "pool_inv s1" using inv acq by (rule acquire_frame_inv)
  show ?thesis
  proof (cases w)
    case None
    with np acq i1 show ?thesis by (simp add: NewPage_def)
  next
    case (Some f)
    define s3 where "s3 = (snd (AllocatePage s1))\<lparr>pages := (pages (snd (AllocatePage s1)))[nat f :=
                      (ResetMemory (pages (snd (AllocatePage s1)) ! nat f))
                        \<lparr>page_id := fst (AllocatePage s1), pin_count := 1, is_dirty := False\<rparr>]\<rparr>"
    have i3: "pool_inv s3" using i1 by (rule pool_inv_cong) (simp_all add: s3_def AllocatePage_def)
    from np acq Some obtain s4 where s4: "pin_in_replacer s3 f = Inr s4"
      and s': "s' = s4\<lparr>page_table := (page_table s4)(pid \<mapsto> f)\<rparr>"
      by (auto simp: NewPage_def Let_def case_prod_beta s3_def split: sum.splits)
    have "pool_inv s4" using i3 s4 by (rule pin_in_replacer_inv)
    then show ?thesis by (rule pool_inv_cong) (simp_all add: s')
  qed
qed

lemma FetchPage_inv:
  assumes inv: "pool_inv s" and fp: "FetchPage s pid = Inr (v, s')"
  shows "pool_inv s'"
proof (cases "page_table s pid")
  case (Some f)
  define s1 where "s1 = s\<lparr>pages := (pages s)[nat f :=
                          (pages s ! nat f)\<lparr>pin_count := pin_count (pages s ! nat f) + 1\<rparr>]\<rparr>"
  have i1: "pool_inv s1" using inv by (rule pool_inv_cong) (simp_all add: s1_def)
  from fp Some have "pin_in_replacer s1 f = Inr s'"
    by (auto simp: FetchPage_def Let_def s1_def split: if_splits sum.splits)
  with i1 show ?thesis by (rule pin_in_replacer_inv)
next
  case None
  with fp obtain w s1 where acq: "acquire_frame s = Inr (w, s1)"
    by (auto simp: FetchPage_def split: sum.splits)
  have i1: "pool_inv s1" using inv acq by (rule acquire_frame_inv)
  show ?thesis
  proof (cases w)
    case N: None
    with fp acq i1 None show ?thesis by (simp add: FetchPage_def)
  next
    case S: (Some f)
    define s2 where "s2 = s1\<lparr>pages := (pages s1)[nat f :=
                              (ResetMemory (pages s1 ! nat f))
                                \<lparr>page_id := pid, pin_count := 1, is_dirty := False\<rparr>]\<rparr>"
    define s3 where "s3 = schedule_read s2 f (page_id (pages s2 ! nat f))"
    have i3: "pool_inv s3" using i1
      by (rule pool_inv_cong) (simp_all add: s3_def s2_def schedule_read_def)
    from fp acq S None obtain s4 where s4: "pin_in_replacer s3 f = Inr s4"
      and s': "s' = s4\<lparr>page_table := (page_table s4)(pid \<mapsto> f)\<rparr>"
      by (auto simp: FetchPage_def Let_def s3_def s2_def split: sum.splits)
    have "pool_inv s4" using i3 s4 by (rule pin_in_replacer_inv)
    then show ?thesis by (rule pool_inv_cong) (simp_all add: s')
  qed
qed

lemma UnpinPage_inv:
  assumes inv: "pool_inv s" and up: "UnpinPage s pid b = Inr (v, s')"
  shows "pool_inv s'"
proof -
  from inv have rinv: "replacer_inv (replacer s)" by (simp add: pool_inv_def)
  from up have "length (pages s') = length (pages s) \<and> pool_size s' = pool_size s
    \<and> (replacer s' = replacer s \<or> (\<exists>f. SetEvictable (replacer s) f True = Inr (replacer s')))"
    by (auto simp: UnpinPage_def Let_def split: option.splits if_splits sum.splits)
  then show ?thesis
    using inv inv_SetEvictable [OF rinv] replacer_size_SetEvictable
    by (auto simp: pool_inv_def)
qed

lemma FlushPage_inv:
  assumes inv: "pool_inv s" and fl: "FlushPage s pid = Inr (v, s')"
  shows "pool_inv s'"
proof -
  from fl have "replacer s' = replacer s" "length (pages s') = length (pages s)"
    "pool_size s' = pool_size s"
    by (auto simp: FlushPage_def Let_def schedule_write_def split: option.splits if_splits)
  with inv show ?thesis by (rule pool_inv_cong)
qed

lemma flush_frames_inv:
  "pool_inv s \<Longrightarrow> flush_frames s js = Inr s' \<Longrightarrow> pool_inv s'"
proof (induction js arbitrary: s)
  case Nil
  then show ?case by simp
next
  case (Cons i js)
  from Cons.prems(2) obtain b s1 where f: "FlushPage s (page_id (pages s ! i)) = Inr (b, s1)"
    "flush_frames s1 js = Inr s'"
    by (auto split: if_splits sum.splits)
  have "pool_inv s1" using Cons.prems(1) f(1) by (rule FlushPage_inv)
  then show ?case using f(2) by (rule Cons.IH)
qed

lemma FlushAllPages_inv:
  "pool_inv s \<Longrightarrow> FlushAllPages s = Inr s' \<Longrightarrow> pool_inv s'"
  unfolding FlushAllPages_def by (rule flush_frames_inv)

lemma DeletePage_inv:
  assumes inv: "pool_inv s" and dp: "DeletePage s pid = Inr (v, s')"
  shows "pool_inv s'"
proof -
  from inv have rinv: "replacer_inv (replacer s)" by (simp add: pool_inv_def)
  from dp have "length (pages s') = length (pages s) \<and> pool_size s' = pool_size s
    \<and> (replacer s' = replacer s \<or> (\<exists>f. Remove (replacer s) f = Inr (replacer s')))"
    by (auto simp: DeletePage_def Let_def DeallocatePage_def split: option.splits if_splits sum.splits)
  then show ?thesis
    using inv inv_Remove [OF rinv] replacer_size_Remove
    by (auto simp: pool_inv_def)
qed

lemma write_bytes_inv:
  assumes "pool_inv s"
  shows "pool_inv (write_bytes s pid off bs)"
  using assms by (rule pool_inv_cong) (simp_all add: write_bytes_def split: option.splits)

lemma apply_pool_call_inv:
  assumes "pool_inv s" "apply_pool_call s c = Inr (v, s')"
  shows "pool_inv s'"
proof (cases c)
  case CallNewPage
  with assms show ?thesis by (auto split: sum.splits dest: NewPage_inv)
next
  case (CallFetchPage pid)
  with assms show ?thesis by (auto split: sum.splits dest: FetchPage_inv)
next
  case (CallUnpinPage pid b)
  with assms show ?thesis by (auto split: sum.splits dest: UnpinPage_inv)
next
  case (CallFlushPage pid)
  with assms show ?thesis by (auto split: sum.splits dest: FlushPage_inv)
next
  case (CallDeletePage pid)
  with assms show ?thesis by (auto split: sum.splits dest: DeletePage_inv)
next
  case (CallWriteBytes pid off bs)
  with assms show ?thesis by (auto intro: write_bytes_inv)
qed

lemma apply_pool_calls_inv:
  "pool_inv s \<Longrightarrow> apply_pool_calls s cs = Inr (rs, s') \<Longrightarrow> pool_inv s'"
proof (induction cs arbitrary: s rs)
  case Nil
  then show ?case by simp
next
  case (Cons c cs)
  from Cons.prems(2) obtain v s1 rs' where c: "apply_pool_call s c = Inr (v, s1)"
    "apply_pool_calls s1 cs = Inr (rs', s')"
    by (auto split: sum.splits)
  have "pool_inv s1" using Cons.prems(1) c(1) by (rule apply_pool_call_inv)
  then show ?case using c(2) by (rule Cons.IH)
qed


lemma DeletePage_cases:
  "page_table s pid = None \<Longrightarrow> DeletePage s pid = Inr (True, s)"
  "page_table s pid = Some f \<Longrightarrow> frame_valid s f \<Longrightarrow> pin_count (pages s ! nat f) > 0
    \<Longrightarrow> DeletePage s pid = Inr (False, s)"
  "page_table s pid = Some f \<Longrightarrow> frame_valid s f \<Longrightarrow> pin_count (pages s ! nat f) \<le> 0
    \<Longrightarrow> Remove (replacer s) f = Inr r
    \<Longrightarrow> DeletePage s pid = Inr (True,
          s\<lparr>replacer := r, page_table := (page_table s)(pid := None),
            free_list := free_list s @ [f],
            pages := (pages s)[nat f := (pages s ! nat f)
                       \<lparr>data := replicate PAGE_SIZE 0, pin_count := 0,
                        page_id := INVALID_PAGE_ID, is_dirty := False\<rparr>],
            deallocated := deallocated s @ [pid]\<rparr>)"
  by (simp_all add: DeletePage_def DeallocatePage_def ResetMemory_def Let_def)


text \<open>
  C5 as stated, at its scenario: with three frames, \<open>k = 2\<close> and a zeroed disk, after
  \<open>new_page\<close> (page 0, frame 2), the write of \<open>"A"\<close> at offset 0, \<open>unpin_page(0, true)\<close>
  and three more \<open>new_page\<close> calls (pages 1, 2 and 3, the last one in the frame of page
  0), every frame is pinned, and \<open>fetch_page(0)\<close> returns the null pointer.
\<close>

theorem fetch_after_eviction_returns_null:
  "pool_results (BufferPoolManager_init 3 zeroed_disk 2)
     [CallNewPage, CallWriteBytes 0 0 [0x41], CallUnpinPage 0 True,
      CallNewPage, CallNewPage, CallNewPage, CallFetchPage 0]
   = Inr [NewPageResult (Some 2) 0, NoResult, BoolResult True, NewPageResult (Some 1) 1,
          NewPageResult (Some 0) 2, NewPageResult (Some 2) 3, PageResult None]"
  by (simp add: pool_results_def pool_defs replacer_defs Let_def upt_rec)


text \<open>
  C5, amended. Whenever \<open>NewPage\<close>, or \<open>FetchPage\<close> on a miss, finds the free list
  empty and the replacer evicts a frame whose page is dirty, the call returns that frame,
  the request log gains a write of the victim's bytes under the victim's page id, the disk
  holds these bytes under that id, and the frame is reset (and, for \<open>FetchPage\<close>,
  filled by a read request that follows the write). This holds in every state that
  satisfies the invariant of the pool, which every state reached by calls from the
  constructor does (for \<open>FlushAllPages\<close>, by \<open>FlushAllPages_inv\<close>). In the scenario,
  for every \<open>k\<close> of the replacer, the eviction by the fourth \<open>new_page\<close> writes page 0
  to disk; \<open>fetch_page(0)\<close> returns the null pointer while all three frames are pinned;
  after \<open>unpin_page(1, false)\<close> it returns frame 1, holding page 0 with bytes that begin
  with \<open>"A"\<close>, read back from disk.
\<close>

theorem dirty_victim_written_back:
  "(pool_inv s \<and> free_list s = [] \<and> Evict (replacer s) = (Some f, r)
      \<and> is_dirty (pages s ! nat f)
    \<longrightarrow> (\<exists>s'. NewPage s out = Inr (Some f, next_page_id s, s')
          \<and> requests s' = requests s @
              [DiskRequest True (data (pages s ! nat f)) (page_id (pages s ! nat f))]
          \<and> disk s' = (disk s)(page_id (pages s ! nat f) := data (pages s ! nat f))
          \<and> pages s' ! nat f =
              \<lparr>data = replicate PAGE_SIZE 0, page_id = next_page_id s, pin_count = 1,
               is_dirty = False\<rparr>)
      \<and> (page_table s pid = None
         \<longrightarrow> (\<exists>s''. FetchPage s pid = Inr (Some f, s'')
               \<and> requests s'' = requests s @
                   [DiskRequest True (data (pages s ! nat f)) (page_id (pages s ! nat f)),
                    DiskRequest False (disk s'' pid) pid]
               \<and> disk s'' = (disk s)(page_id (pages s ! nat f) := data (pages s ! nat f))
               \<and> pages s'' ! nat f =
                   \<lparr>data = disk s'' pid, page_id = pid, pin_count = 1, is_dirty = False\<rparr>)))
   \<and> (n < 2 ^ 64 \<and> apply_pool_calls (BufferPoolManager_init n disk_manager k) cs = Inr (rs, s0)
      \<longrightarrow> pool_inv s0)
   \<and> (case apply_pool_calls (BufferPoolManager_init 3 zeroed_disk replacer_k)
             [CallNewPage, CallWriteBytes 0 0 [0x41], CallUnpinPage 0 True,
              CallNewPage, CallNewPage, CallNewPage, CallFetchPage 0,
              CallUnpinPage 1 False, CallFetchPage 0] of
         Inl e \<Rightarrow> False
       | Inr (rs, s1) \<Rightarrow>
           rs = [NewPageResult (Some 2) 0, NoResult, BoolResult True, NewPageResult (Some 1) 1,
                 NewPageResult (Some 0) 2, NewPageResult (Some 2) 3, PageResult None,
                 BoolResult True, PageResult (Some 1)]
         \<and> page_id (pages s1 ! 1) = 0 \<and> take 1 (data (pages s1 ! 1)) = [0x41]
         \<and> take 1 (disk s1 0) = [0x41]
         \<and> requests s1 = [DiskRequest True (disk s1 0) 0, DiskRequest False (disk s1 0) 0])"
proof (intro conjI impI)
  assume a: "pool_inv s \<and> free_list s = [] \<and> Evict (replacer s) = (Some f, r)
      \<and> is_dirty (pages s ! nat f)"
  then show "\<exists>s'. NewPage s out = Inr (Some f, next_page_id s, s')
          \<and> requests s' = requests s @
              [DiskRequest True (data (pages s ! nat f)) (page_id (pages s ! nat f))]
          \<and> disk s' = (disk s)(page_id (pages s ! nat f) := data (pages s ! nat f))
          \<and> pages s' ! nat f =
              \<lparr>data = replicate PAGE_SIZE 0, page_id = next_page_id s, pin_count = 1,
               is_dirty = False\<rparr>"
    by (intro NewPage_evicts_dirty [of s f r]) simp_all
  assume "page_table s pid = None"
  with a show "\<exists>s''. FetchPage s pid = Inr (Some f, s'')
               \<and> requests s'' = requests s @
                   [DiskRequest True (data (pages s ! nat f)) (page_id (pages s ! nat f)),
                    DiskRequest False (disk s'' pid) pid]
               \<and> disk s'' = (disk s)(page_id (pages s ! nat f) := data (pages s ! nat f))
               \<and> pages s'' ! nat f =
                   \<lparr>data = disk s'' pid, page_id = pid, pin_count = 1, is_dirty = False\<rparr>"
    by (intro FetchPage_evicts_dirty [of s pid f r]) simp_all
next
  assume "n < 2 ^ 64 \<and> apply_pool_calls (BufferPoolManager_init n disk_manager k) cs = Inr (rs, s0)"
  then show "pool_inv s0" using pool_inv_init [of n disk_manager k] apply_pool_calls_inv by blast
next
  show "case apply_pool_calls (BufferPoolManager_init 3 zeroed_disk replacer_k)
             [CallNewPage, CallWriteBytes 0 0 [0x41], CallUnpinPage 0 True,
              CallNewPage, CallNewPage, CallNewPage, CallFetchPage 0,
              CallUnpinPage 1 False, CallFetchPage 0] of
         Inl e \<Rightarrow> False
       | Inr (rs, s1) \<Rightarrow>
           rs = [NewPageResult (Some 2) 0, NoResult, BoolResult True, NewPageResult (Some 1) 1,
                 NewPageResult (Some 0) 2, NewPageResult (Some 2) 3, PageResult None,
                 BoolResult True, PageResult (Some 1)]
         \<and> page_id (pages s1 ! 1) = 0 \<and> take 1 (data (pages s1 ! 1)) = [0x41]
         \<and> take 1 (disk s1 0) = [0x41]
         \<and> requests s1 = [DiskRequest True (disk s1 0) 0, DiskRequest False (disk s1 0) 0]"
    using PAGE_SIZE_pos
    by (simp add: pool_defs replacer_defs Let_def upt_rec take_Suc_conv_app_nth)
qed


text \<open>
  The state before the fourth \<open>new_page\<close> of the scenario: the free list is empty, the
  replacer evicts frame 2, which holds the dirty page 0; \<open>NewPage\<close>, and \<open>FetchPage\<close>
  of the absent page 7, return frame 2 after the write of page 0.
\<close>

theorem dirty_victim_written_back_witness:
  "(case apply_pool_calls (BufferPoolManager_init 3 zeroed_disk 2)
          [CallNewPage, CallWriteBytes 0 0 [0x41], CallUnpinPage 0 True, CallNewPage, CallNewPage] of
      Inl e \<Rightarrow> False
    | Inr (rs, s) \<Rightarrow>
        pool_inv s \<and> free_list s = [] \<and> fst (Evict (replacer s)) = Some 2
      \<and> is_dirty (pages s ! 2) \<and> page_id (pages s ! 2) = 0 \<and> page_table s 7 = None
      \<and> (case NewPage s INVALID_PAGE_ID of
            Inl e \<Rightarrow> False
          | Inr (res, pid, s') \<Rightarrow>
              res = Some 2 \<and> pid = 3
            \<and> requests s' = [DiskRequest True (data (pages s ! 2)) 0]
            \<and> disk s' 0 = data (pages s ! 2)
            \<and> take 1 (disk s' 0) = [0x41])
      \<and> (case FetchPage s 7 of
            Inl e \<Rightarrow> False
          | Inr (res, s'') \<Rightarrow>
              res = Some 2
            \<and> requests s'' = [DiskRequest True (data (pages s ! 2)) 0,
                               DiskRequest False (replicate PAGE_SIZE 0) 7]
            \<and> take 1 (disk s'' 0) = [0x41]))"
proof -
  obtain rs s where run: "apply_pool_calls (BufferPoolManager_init 3 zeroed_disk 2)
          [CallNewPage, CallWriteBytes 0 0 [0x41], CallUnpinPage 0 True, CallNewPage, CallNewPage]
        = Inr (rs, s)"
    and fl: "free_list s = []"
    and d: "is_dirty (pages s ! 2)" "page_id (pages s ! 2) = 0" "requests s = []"
      "take 1 (data (pages s ! 2)) = [0x41]" "next_page_id s = 3" "page_table s 7 = None"
      "disk s 7 = replicate PAGE_SIZE 0"
    and ev: "fst (Evict (replacer s)) = Some 2"
    using PAGE_SIZE_pos
    by (simp add: pool_defs replacer_defs Let_def upt_rec take_Suc_conv_app_nth)
  from ev obtain r where r: "Evict (replacer s) = (Some 2, r)" by (cases "Evict (replacer s)") simp
  have d2: "is_dirty (pages s ! nat 2)" using d(1) by simp
  note T = dirty_victim_written_back [of s 2 r INVALID_PAGE_ID 7 3 zeroed_disk 2
      "[CallNewPage, CallWriteBytes 0 0 [0x41], CallUnpinPage 0 True, CallNewPage, CallNewPage]" rs s]
  from T [THEN conjunct2, THEN conjunct1] run have inv: "pool_inv s" by simp
  from T [THEN conjunct1] inv fl r d2 d(6)
  obtain s' s'' where np: "NewPage s INVALID_PAGE_ID = Inr (Some 2, next_page_id s, s')"
    "requests s' = requests s @ [DiskRequest True (data (pages s ! nat 2)) (page_id (pages s ! nat 2))]"
    "disk s' = (disk s)(page_id (pages s ! nat 2) := data (pages s ! nat 2))"
    and fp: "FetchPage s 7 = Inr (Some 2, s'')"
    "requests s'' = requests s @ [DiskRequest True (data (pages s ! nat 2)) (page_id (pages s ! nat 2)),
                    DiskRequest False (disk s'' 7) 7]"
    "disk s'' = (disk s)(page_id (pages s ! nat 2) := data (pages s ! nat 2))"
    by blast
  from run inv fl ev d np fp show ?thesis by simp
qed


text \<open>
  C7 on a pool whose replacer has \<open>k = 1\<close>. After \<open>new_page\<close> and \<open>unpin_page(0, false)\<close>
  page 0 is resident in frame 0 with pin count 0. \<open>DeletePage(0)\<close> calls
  \<open>Remove(0)\<close> on the replacer, which finds the count 1 not below \<open>k\<close> and erases
  through the entry of \<open>history_iter_map\<close> that was never stored.
\<close>

theorem DeletePage_k1_unpinned:
  "(case apply_pool_calls (BufferPoolManager_init 1 zeroed_disk 1) [CallNewPage, CallUnpinPage 0 False] of
      Inl e \<Rightarrow> False
    | Inr (rs, s) \<Rightarrow>
        rs = [NewPageResult (Some 0) 0, BoolResult True]
        \<and> page_table s 0 = Some 0 \<and> pin_count (pages s ! 0) = 0
        \<and> DeletePage s 0 = Inl InvalidIterator)"
  by (simp add: pool_defs replacer_defs Let_def upt_rec)


text \<open>
  C10. When the free list is empty and the replacer has no victim, \<open>NewPage\<close> returns
  the null pointer, leaves \<open>*page_id\<close> as it was, and leaves the whole state of the
  pool unchanged: the allocator counter, the page table, the free list, the replacer and
  every frame. A later successful \<open>NewPage\<close> in a state with the same counter returns
  the page id the counter held, the one \<open>AllocatePage\<close> would have returned here.
\<close>

theorem NewPage_exhausted:
  assumes "free_list s = []" and "fst (Evict (replacer s)) = None"
  shows "NewPage s out = Inr (None, out, s)
    \<and> (\<forall>s2 out2 f pid s3. next_page_id s2 = next_page_id s \<and> NewPage s2 out2 = Inr (Some f, pid, s3)
          \<longrightarrow> pid = fst (AllocatePage s))"
proof (intro conjI allI impI)
  show "NewPage s out = Inr (None, out, s)" using assms by (rule NewPage_exhausted_aux)
next
  fix s2 out2 f pid s3
  assume a: "next_page_id s2 = next_page_id s \<and> NewPage s2 out2 = Inr (Some f, pid, s3)"
  then have "pid = next_page_id s2" by (intro NewPage_allocates [of s2 out2 f pid s3]) simp
  with a show "pid = fst (AllocatePage s)" by (simp add: AllocatePage_def)
qed


theorem NewPage_exhausted_witness:
  "(case apply_pool_calls (BufferPoolManager_init 3 zeroed_disk 2) [CallNewPage, CallNewPage, CallNewPage] of
      Inl e \<Rightarrow> False
    | Inr (rs, s) \<Rightarrow>
        free_list s = [] \<and> fst (Evict (replacer s)) = None \<and> next_page_id s = 3
      \<and> NewPage s 7 = Inr (None, 7, s))"
proof -
  obtain rs s where run: "apply_pool_calls (BufferPoolManager_init 3 zeroed_disk 2)
      [CallNewPage, CallNewPage, CallNewPage] = Inr (rs, s)"
    and fl: "free_list s = []" and ev: "fst (Evict (replacer s)) = None" and np: "next_page_id s = 3"
    by (simp add: pool_defs replacer_defs Let_def upt_rec)
  from NewPage_exhausted [OF fl ev, of 7] run fl ev np show ?thesis by simp
qed

section \<open>Properties of the trie\<close>

lemma walk_chain:
  "walk (foldr (\<lambda>c node. TrieNode [c \<mapsto> node] None) key leaf) key = Some leaf"
  by (induction key) simp_all

lemma walk_put_path:
  "key \<noteq> [] \<Longrightarrow> \<exists>cs. walk (put_path p key v) key = Some (TrieNode cs (Some v))"
proof (induction p key v rule: put_path.induct)
  case (1 p v)
  then show ?case by simp
next
  case (2 p c v)
  then show ?case by (simp add: Let_def)
next
  case (3 p c d ds v)
  then show ?case by (simp add: Let_def)
qed

lemma Get_Put_value: "Get (type_of v) (Put t key v) key = Some v"
proof (cases "root t")
  case None
  then show ?thesis by (simp add: Get_def Put_def walk_chain)
next
  case (Some r)
  show ?thesis
  proof (cases "key = []")
    case True
    with Some show ?thesis by (simp add: Get_def Put_def)
  next
    case False
    from walk_put_path [OF False, of r v] obtain cs
      where "walk (put_path r key v) key = Some (TrieNode cs (Some v))" ..
    with Some False show ?thesis by (simp add: Get_def Put_def)
  qed
qed


lemma Get_empty [simp]: "Get T (Trie None) key = None"
  by (simp add: Get_def)

lemma Get_Nil:
  "Get T (Trie (Some n)) [] =
     (case node_value n of None \<Rightarrow> None | Some v \<Rightarrow> if type_of v = T then Some v else None)"
  by (simp add: Get_def)

lemma Get_Cons:
  "Get T (Trie (Some n)) (c # cs) =
     (case children n c of None \<Rightarrow> None | Some ch \<Rightarrow> Get T (Trie (Some ch)) cs)"
  by (simp add: Get_def split: option.splits)

lemma remove_spec_Get_same: "Get T (Trie (remove_spec n key)) key = None"
proof (induction key arbitrary: n)
  case Nil
  then show ?case by (simp add: Get_Nil)
next
  case (Cons c cs)
  show ?case
  proof (cases "children n c")
    case None
    then show ?thesis by (simp add: Get_Cons)
  next
    case (Some ch)
    with Cons [of ch] show ?thesis
      by (cases "remove_spec ch cs") (simp_all add: Get_Cons)
  qed
qed

lemma remove_spec_Get_other:
  "key' \<noteq> key \<Longrightarrow> Get T (Trie (remove_spec n key)) key' = Get T (Trie (Some n)) key'"
proof (induction key arbitrary: n key')
  case Nil
  then obtain c cs where k': "key' = c # cs" by (cases key') auto
  show ?case
  proof (cases "children_empty n")
    case True
    then show ?thesis by (simp add: k' Get_Cons children_empty_def)
  next
    case False
    then show ?thesis by (simp add: k' Get_Cons)
  qed
next
  case (Cons c cs)
  show ?case
  proof (cases "children n c")
    case None
    then show ?thesis by simp
  next
    case (Some ch)
    show ?thesis
    proof (cases key')
      case Nil
      with Some show ?thesis
        by (auto simp: Get_Nil is_value_node_def split: option.splits)
    next
      case k': (Cons c' cs')
      show ?thesis
      proof (cases "c' = c")
        case True
        with Cons.prems k' have ne: "cs' \<noteq> cs" by simp
        from Cons.IH [OF ne, of ch] have ih:
          "Get T (Trie (remove_spec ch cs)) cs' = Get T (Trie (Some ch)) cs'" .
        show ?thesis
        proof (cases "remove_spec ch cs")
          case None
          with ih Some True k' show ?thesis by (simp add: Get_Cons)
        next
          case (Some ch')
          with ih \<open>children n c = Some ch\<close> True k' show ?thesis by (simp add: Get_Cons)
        qed
      next
        case False
        show ?thesis
        proof (cases "remove_spec ch cs")
          case None
          have "(children n)(c := None) = Map.empty \<Longrightarrow> children n c' = None"
            using False by (metis fun_upd_apply)
          with None Some False k' show ?thesis by (auto simp: Get_Cons)
        next
          case (Some ch')
          with \<open>children n c = Some ch\<close> False k' show ?thesis by (simp add: Get_Cons)
        qed
      qed
    qed
  qed
qed


lemma collect_path_nonempty: "collect_path n key = Some path \<Longrightarrow> path \<noteq> []"
  by (cases key) (auto split: option.splits)

lemma collect_path_Cons:
  assumes "collect_path n (c # cs) = Some path"
  obtains ch path' where "children n c = Some ch" "collect_path ch cs = Some path'"
    "path = n # path'" "path' \<noteq> []"
proof -
  from assms obtain ch where ch: "children n c = Some ch"
    by (cases "children n c") auto
  with assms obtain path' where p: "collect_path ch cs = Some path'" "path = n # path'"
    by auto
  from p(1) have "path' \<noteq> []" by (rule collect_path_nonempty)
  with ch p that show thesis by blast
qed



lemma collect_path_last: "collect_path n key = Some path \<Longrightarrow> walk n key = Some (last path)"
proof (induction key arbitrary: n path)
  case Nil
  then have "path = [n]" by simp
  then show ?case by simp
next
  case (Cons c cs)
  from Cons.prems obtain ch path' where ch: "children n c = Some ch"
    and p: "collect_path ch cs = Some path'" "path = n # path'" "path' \<noteq> []"
    by (rule collect_path_Cons)
  from Cons.IH [OF p(1)] ch p(2,3) show ?case by simp
qed

lemma walk_collect_path: "walk n key = Some m \<Longrightarrow> \<exists>path. collect_path n key = Some path"
proof (induction key arbitrary: n)
  case Nil
  then show ?case by simp
next
  case (Cons c cs)
  then obtain ch where ch: "children n c = Some ch" "walk ch cs = Some m"
    by (cases "children n c") auto
  from Cons.IH [OF ch(2)] ch(1) show ?case by auto
qed

lemma children_size_gt1:
  assumes "children n c = Some ch"
  shows "children_size n > 1 \<longleftrightarrow> (children n)(c := None) \<noteq> Map.empty"
proof -
  let ?D = "dom (children n)"
  have fin: "finite ?D" by simp
  have mem: "c \<in> ?D" using assms by auto
  have card: "card ?D = Suc (card (?D - {c}))"
    using fin mem by (rule card.remove)
  have zero: "card (?D - {c}) = 0 \<longleftrightarrow> ?D - {c} = {}"
    using fin by simp
  have "(children n)(c := None) = Map.empty \<longleftrightarrow> dom ((children n)(c := None)) = {}"
    by (simp only: dom_eq_empty_conv)
  also have "\<dots> \<longleftrightarrow> ?D - {c} = {}" by simp
  finally have eq: "(children n)(c := None) = Map.empty \<longleftrightarrow> ?D - {c} = {}" .
  show ?thesis
  proof (cases "?D - {c} = {}")
    case True
    with card zero eq show ?thesis by (simp add: children_size_def)
  next
    case False
    have "finite (?D - {c})" using fin by simp
    with False have "card (?D - {c}) > 0" by (simp only: card_gt_0_iff not_False_eq_True simp_thms)
    with card eq False show ?thesis by (simp add: children_size_def)
  qed
qed



lemma zip_butlast_Cons:
  "path' \<noteq> [] \<Longrightarrow> rev (zip (butlast (n # path')) (c # cs)) @ ys
      = rev (zip (butlast path') cs) @ ((n, c) # ys)"
  by simp

lemma prune_loop_spec:
  assumes "collect_path n key = Some path" "children_empty (last path)"
  shows "prune_loop (rev (zip (butlast path) key) @ ys) new_TrieNode False =
     (case remove_spec n key of
        None \<Rightarrow> prune_loop ys new_TrieNode False
      | Some n' \<Rightarrow> prune_loop ys n' True)"
  using assms
proof (induction key arbitrary: n path ys)
  case Nil
  then have "path = [n]" by simp
  with Nil show ?case by simp
next
  case (Cons c cs)
  from Cons.prems(1) obtain ch path' where ch: "children n c = Some ch"
    and p: "collect_path ch cs = Some path'" "path = n # path'" "path' \<noteq> []"
    by (rule collect_path_Cons)
  have last: "children_empty (last path')" using Cons.prems(2) p by simp
  have "prune_loop (rev (zip (butlast path) (c # cs)) @ ys) new_TrieNode False
      = prune_loop (rev (zip (butlast path') cs) @ ((n, c) # ys)) new_TrieNode False"
    unfolding p(2) by (simp only: zip_butlast_Cons [OF p(3)])
  also have "\<dots> = (case remove_spec ch cs of
        None \<Rightarrow> prune_loop ((n, c) # ys) new_TrieNode False
      | Some n' \<Rightarrow> prune_loop ((n, c) # ys) n' True)"
    using p(1) last by (rule Cons.IH)
  also have "\<dots> = (case remove_spec n (c # cs) of
        None \<Rightarrow> prune_loop ys new_TrieNode False
      | Some n' \<Rightarrow> prune_loop ys n' True)"
    using ch children_size_gt1 [OF ch]
    by (cases "remove_spec ch cs") auto
  finally show ?case .
qed

lemma relink_loop_spec:
  assumes "collect_path n key = Some path" "\<not> children_empty (last path)"
  shows "\<exists>n'. remove_spec n key = Some n' \<and>
     relink_loop (rev (zip (butlast path) key) @ ys) (TrieNode (children (last path)) None)
       = relink_loop ys n'"
  using assms
proof (induction key arbitrary: n path ys)
  case Nil
  then have "path = [n]" by simp
  with Nil show ?case by simp
next
  case (Cons c cs)
  from Cons.prems(1) obtain ch path' where ch: "children n c = Some ch"
    and p: "collect_path ch cs = Some path'" "path = n # path'" "path' \<noteq> []"
    by (rule collect_path_Cons)
  have last: "\<not> children_empty (last path')" "last path = last path'"
    using Cons.prems(2) p by simp_all
  from Cons.IH [OF p(1) last(1), of "(n, c) # ys"] obtain ch' where
    ch': "remove_spec ch cs = Some ch'"
    "relink_loop (rev (zip (butlast path') cs) @ ((n, c) # ys)) (TrieNode (children (last path')) None)
       = relink_loop ((n, c) # ys) ch'"
    by blast
  have "rev (zip (butlast path) (c # cs)) @ ys = rev (zip (butlast path') cs) @ ((n, c) # ys)"
    unfolding p(2) by (simp only: zip_butlast_Cons [OF p(3)])
  with ch ch' last(2) show ?case by simp
qed

lemma remove_spec_not_empty:
  "collect_path n key = Some path \<Longrightarrow> remove_spec n key = Some n'
    \<Longrightarrow> \<not> (children_empty n' \<and> \<not> is_value_node n')"
proof (induction key arbitrary: n path n')
  case Nil
  then show ?case by (auto simp: children_empty_def split: if_splits)
next
  case (Cons c cs)
  from Cons.prems(1) obtain ch path' where ch: "children n c = Some ch"
    and p: "collect_path ch cs = Some path'" "path = n # path'" "path' \<noteq> []"
    by (rule collect_path_Cons)
  show ?case
  proof (cases "remove_spec ch cs")
    case None
    with Cons.prems(2) ch show ?thesis
      by (auto simp: children_empty_def is_value_node_def split: if_splits)
  next
    case (Some ch')
    with Cons.prems(2) ch have "n' = TrieNode ((children n)(c \<mapsto> ch')) (node_value n)" by simp
    then show ?thesis by (simp add: children_empty_def)
  qed
qed

lemma Remove_key_spec:
  assumes r: "root t = Some r" and w: "walk r key = Some m"
    and v: "is_value_node m \<or> children_empty m"
  shows "Remove_key t key = Inr (Trie (remove_spec r key))"
proof -
  from w obtain path where path: "collect_path r key = Some path"
    using walk_collect_path by blast
  from collect_path_last [OF path] w have m: "last path = m" by simp
  show ?thesis
  proof (cases "children_empty m")
    case True
    from prune_loop_spec [OF path, of "[]"] True m
    have pl: "prune_loop (rev (zip (butlast path) key)) new_TrieNode False =
        (case remove_spec r key of None \<Rightarrow> new_TrieNode | Some n' \<Rightarrow> n')"
      by (simp split: option.splits)
    show ?thesis
    proof (cases "remove_spec r key")
      case None
      with pl r path True m show ?thesis
        by (simp add: Remove_key_def Let_def new_TrieNode_def children_empty_def is_value_node_def)
    next
      case (Some n')
      from remove_spec_not_empty [OF path Some] pl r path True m Some show ?thesis
        by (cases t) (simp add: Remove_key_def Let_def)
    qed
  next
    case False
    with v have val: "is_value_node m" by simp
    from relink_loop_spec [OF path, of "[]"] False m obtain n' where
      n': "remove_spec r key = Some n'"
      "relink_loop (rev (zip (butlast path) key)) (TrieNode (children m) None) = n'"
      by auto
    from remove_spec_not_empty [OF path n'(1)] n' r path False m val show ?thesis
      by (cases t) (simp add: Remove_key_def Let_def)
  qed
qed


lemma node_no_dangling_child:
  "node_no_dangling n \<Longrightarrow> children n c = Some ch \<Longrightarrow> node_no_dangling ch"
  unfolding node_no_dangling_def
proof (intro allI impI)
  fix key m
  assume a: "\<forall>key m. walk n key = Some m \<longrightarrow> children_empty m \<longrightarrow> is_value_node m"
    and ch: "children n c = Some ch" and w: "walk ch key = Some m" and e: "children_empty m"
  from ch w have "walk n (c # key) = Some m" by simp
  with a e show "is_value_node m" by blast
qed

lemma node_no_danglingI:
  assumes "children_empty n \<Longrightarrow> is_value_node n"
    and "\<And>c ch. children n c = Some ch \<Longrightarrow> node_no_dangling ch"
  shows "node_no_dangling n"
  unfolding node_no_dangling_def
proof (intro allI impI)
  fix key m
  assume w: "walk n key = Some m" and e: "children_empty m"
  show "is_value_node m"
  proof (cases key)
    case Nil
    with w e assms(1) show ?thesis by simp
  next
    case (Cons c cs)
    with w obtain ch where ch: "children n c = Some ch" "walk ch cs = Some m"
      by (cases "children n c") auto
    from assms(2) [OF ch(1)] ch(2) e show ?thesis
      unfolding node_no_dangling_def by blast
  qed
qed

lemma remove_spec_no_dangling:
  "node_no_dangling n \<Longrightarrow> remove_spec n key = Some n' \<Longrightarrow> node_no_dangling n'"
proof (induction key arbitrary: n n')
  case Nil
  then have ne: "\<not> children_empty n" and n': "n' = TrieNode (children n) None"
    by (auto split: if_splits)
  show ?case
  proof (rule node_no_danglingI)
    assume "children_empty n'"
    with ne n' show "is_value_node n'" by (simp add: children_empty_def)
  next
    fix c ch assume "children n' c = Some ch"
    with n' have "children n c = Some ch" by simp
    with Nil.prems(1) show "node_no_dangling ch" by (rule node_no_dangling_child)
  qed
next
  case (Cons c cs)
  show ?case
  proof (cases "children n c")
    case None
    with Cons.prems show ?thesis by simp
  next
    case (Some ch)
    have ndch: "node_no_dangling ch" using Cons.prems(1) Some by (rule node_no_dangling_child)
    show ?thesis
    proof (cases "remove_spec ch cs")
      case None
      with Cons.prems(2) Some have keep: "is_value_node n \<or> (children n)(c := None) \<noteq> Map.empty"
        and n': "n' = TrieNode ((children n)(c := None)) (node_value n)"
        by (auto split: if_splits)
      show ?thesis
      proof (rule node_no_danglingI)
        assume "children_empty n'"
        with keep n' show "is_value_node n'" by (auto simp: children_empty_def is_value_node_def)
      next
        fix d ch' assume "children n' d = Some ch'"
        with n' have "children n d = Some ch'" by (auto split: if_splits)
        with Cons.prems(1) show "node_no_dangling ch'" by (rule node_no_dangling_child)
      qed
    next
      case (Some ch1)
      with Cons.prems(2) \<open>children n c = Some ch\<close>
      have n': "n' = TrieNode ((children n)(c \<mapsto> ch1)) (node_value n)" by simp
      have nd1: "node_no_dangling ch1" using ndch Some by (rule Cons.IH)
      show ?thesis
      proof (rule node_no_danglingI)
        assume "children_empty n'"
        with n' show "is_value_node n'" by (simp add: children_empty_def)
      next
        fix d ch' assume d: "children n' d = Some ch'"
        show "node_no_dangling ch'"
        proof (cases "d = c")
          case True
          with d n' nd1 show ?thesis by simp
        next
          case False
          with d n' have "children n d = Some ch'" by simp
          with Cons.prems(1) show ?thesis by (rule node_no_dangling_child)
        qed
      qed
    qed
  qed
qed


lemma chain_no_dangling:
  "node_no_dangling (foldr (\<lambda>c node. TrieNode [c \<mapsto> node] None) key (TrieNode Map.empty (Some v)))"
proof (induction key)
  case Nil
  show ?case by (rule node_no_danglingI) (simp_all add: is_value_node_def)
next
  case (Cons c cs)
  let ?f = "\<lambda>c node. TrieNode [c \<mapsto> node] None"
  let ?leaf = "TrieNode Map.empty (Some v)"
  have eq: "foldr ?f (c # cs) ?leaf = TrieNode [c \<mapsto> foldr ?f cs ?leaf] None" by simp
  show ?case unfolding eq
  proof (rule node_no_danglingI)
    assume "children_empty (TrieNode [c \<mapsto> foldr ?f cs ?leaf] None)"
    then show "is_value_node (TrieNode [c \<mapsto> foldr ?f cs ?leaf] None)"
      by (simp add: children_empty_def)
  next
    fix d ch assume "children (TrieNode [c \<mapsto> foldr ?f cs ?leaf] None) d = Some ch"
    then have ch: "ch = foldr ?f cs ?leaf" by (auto split: if_splits)
    show "node_no_dangling ch" unfolding ch by (rule Cons)
  qed
qed

lemma put_path_no_dangling:
  assumes "\<And>c ch. children p c = Some ch \<Longrightarrow> node_no_dangling ch" "key \<noteq> []"
  shows "node_no_dangling (put_path p key v)"
  using assms
proof (induction p key v rule: put_path.induct)
  case (1 p v)
  then show ?case by simp
next
  case (2 p c v)
  define new_node where "new_node = (case children p c of Some ch \<Rightarrow> ch | None \<Rightarrow> new_TrieNode)"
  define node where "node = TrieNode (if \<not> children_empty new_node then children new_node else Map.empty) (Some v)"
  have below: "\<And>d ch. children new_node d = Some ch \<Longrightarrow> node_no_dangling ch"
  proof -
    fix d ch assume d: "children new_node d = Some ch"
    show "node_no_dangling ch"
    proof (cases "children p c")
      case None
      with d show ?thesis by (simp add: new_node_def new_TrieNode_def)
    next
      case (Some ch0)
      with "2.prems"(1) have "node_no_dangling ch0" by blast
      with d Some show ?thesis by (auto simp: new_node_def intro: node_no_dangling_child)
    qed
  qed
  have nd: "node_no_dangling node"
  proof (rule node_no_danglingI)
    show "is_value_node node" by (simp add: node_def is_value_node_def)
  next
    fix d ch assume "children node d = Some ch"
    then have "children new_node d = Some ch" by (auto simp: node_def split: if_splits)
    then show "node_no_dangling ch" by (rule below)
  qed
  have eq: "put_path p [c] v = TrieNode ((children p)(c \<mapsto> node)) (node_value p)"
    by (simp add: new_node_def node_def Let_def)
  show ?case unfolding eq
  proof (rule node_no_danglingI)
    assume "children_empty (TrieNode ((children p)(c \<mapsto> node)) (node_value p))"
    then show "is_value_node (TrieNode ((children p)(c \<mapsto> node)) (node_value p))"
      by (simp add: children_empty_def)
  next
    fix d ch assume "children (TrieNode ((children p)(c \<mapsto> node)) (node_value p)) d = Some ch"
    with nd "2.prems"(1) show "node_no_dangling ch" by (auto split: if_splits)
  qed
next
  case (3 p c d ds v)
  define new_node where "new_node = (case children p c of Some ch \<Rightarrow> ch | None \<Rightarrow> new_TrieNode)"
  have below: "\<And>e ch. children new_node e = Some ch \<Longrightarrow> node_no_dangling ch"
  proof -
    fix e ch assume e: "children new_node e = Some ch"
    show "node_no_dangling ch"
    proof (cases "children p c")
      case None
      with e show ?thesis by (simp add: new_node_def new_TrieNode_def)
    next
      case (Some ch0)
      with "3.prems"(1) have "node_no_dangling ch0" by blast
      with e Some show ?thesis by (auto simp: new_node_def intro: node_no_dangling_child)
    qed
  qed
  have ih: "node_no_dangling (put_path new_node (d # ds) v)"
    using "3.IH" [OF new_node_def] below by simp
  have eq: "put_path p (c # d # ds) v
      = TrieNode ((children p)(c \<mapsto> put_path new_node (d # ds) v)) (node_value p)"
    by (simp add: new_node_def Let_def)
  show ?case unfolding eq
  proof (rule node_no_danglingI)
    assume "children_empty (TrieNode ((children p)(c \<mapsto> put_path new_node (d # ds) v)) (node_value p))"
    then show "is_value_node (TrieNode ((children p)(c \<mapsto> put_path new_node (d # ds) v)) (node_value p))"
      by (simp add: children_empty_def)
  next
    fix e ch
    assume "children (TrieNode ((children p)(c \<mapsto> put_path new_node (d # ds) v)) (node_value p)) e = Some ch"
    with ih "3.prems"(1) show "node_no_dangling ch" by (auto split: if_splits)
  qed
qed

lemma Put_no_dangling:
  assumes "no_dangling t"
  shows "no_dangling (Put t key v)"
proof (cases "root t")
  case None
  then show ?thesis by (simp add: Put_def no_dangling_def chain_no_dangling)
next
  case (Some r)
  with assms have nd: "node_no_dangling r" by (simp add: no_dangling_def)
  have below: "\<And>c ch. children r c = Some ch \<Longrightarrow> node_no_dangling ch"
    using nd by (rule node_no_dangling_child)
  show ?thesis
  proof (cases "key = []")
    case True
    have "node_no_dangling (TrieNode (children r) (Some v))"
      by (rule node_no_danglingI) (use below in \<open>auto simp: is_value_node_def\<close>)
    with Some True show ?thesis by (simp add: Put_def no_dangling_def)
  next
    case False
    from put_path_no_dangling [of r key v] below False
    have "node_no_dangling (put_path r key v)" by blast
    with Some False show ?thesis by (simp add: Put_def no_dangling_def)
  qed
qed

lemma no_dangling_has_key:
  "node_no_dangling n \<Longrightarrow> \<exists>key m. walk n key = Some m \<and> is_value_node m"
proof (induction n)
  case (TrieNode cs v)
  show ?case
  proof (cases "cs = Map.empty")
    case True
    with TrieNode.prems have "is_value_node (TrieNode cs v)"
      unfolding node_no_dangling_def children_empty_def
      by (metis TrieNode.sel(1) walk.simps(1))
    then have "walk (TrieNode cs v) [] = Some (TrieNode cs v) \<and> is_value_node (TrieNode cs v)" by simp
    then show ?thesis by blast
  next
    case False
    then obtain c ch where c: "cs c = Some ch" by (metis not_Some_eq ext)
    have "node_no_dangling ch" using TrieNode.prems c
      by (auto intro: node_no_dangling_child [of "TrieNode cs v"])
    moreover have "cs c \<in> range cs" by (rule rangeI)
    moreover have "ch \<in> set_option (cs c)" using c by simp
    ultimately obtain key m where "walk ch key = Some m" "is_value_node m"
      using TrieNode.IH by blast
    with c have "walk (TrieNode cs v) (c # key) = Some m \<and> is_value_node m" by simp
    then show ?thesis by blast
  qed
qed

lemma present_iff:
  "present t key \<longleftrightarrow> (\<exists>r m. root t = Some r \<and> walk r key = Some m \<and> is_value_node m)"
proof
  assume "present t key"
  then obtain T where "Get T t key \<noteq> None" by (auto simp: present_def)
  then show "\<exists>r m. root t = Some r \<and> walk r key = Some m \<and> is_value_node m"
    by (auto simp: Get_def is_value_node_def split: option.splits if_splits)
next
  assume "\<exists>r m. root t = Some r \<and> walk r key = Some m \<and> is_value_node m"
  then obtain r m v where "root t = Some r" "walk r key = Some m" "node_value m = Some v"
    by (auto simp: is_value_node_def)
  then have "Get (type_of v) t key = Some v" by (simp add: Get_def)
  then show "present t key" unfolding present_def by (metis option.distinct(1))
qed

lemma no_key_empty:
  assumes "no_dangling t" "\<forall>key. \<not> present t key"
  shows "t = Trie None"
proof (cases "root t")
  case None
  then show ?thesis by (cases t) simp
next
  case (Some r)
  with assms(1) have "node_no_dangling r" by (simp add: no_dangling_def)
  then obtain key m where "walk r key = Some m" "is_value_node m"
    using no_dangling_has_key by blast
  with Some have "present t key" unfolding present_iff by blast
  with assms(2) show ?thesis by blast
qed

lemmas trie_defs = Get_def Put_def Remove_key_def new_TrieNode_def children_empty_def
  is_value_node_def children_size_def

text \<open>
  C4. For a key present in a trie, \<open>Remove\<close> returns a trie in which the key is absent and
  every other key has the value (of every type) it had before. The returned root is the
  one the specification's pruning gives: the node of the key is deleted when it has no
  children, a deleted child leaves its parent, and a parent left with neither value nor
  child is deleted in turn, up to the root, whose deletion gives the empty trie. If no
  leaf of the trie was without a value, none is afterwards; and if no other key was
  present in such a trie, the result is the empty trie.
\<close>

theorem Remove_key_present:
  assumes "present t key"
  shows "case Remove_key t key of
     Inl e \<Rightarrow> False
   | Inr t' \<Rightarrow>
       (\<forall>T. Get T t' key = None)
     \<and> (\<forall>T key'. key' \<noteq> key \<longrightarrow> Get T t' key' = Get T t key')
     \<and> root t' = (case root t of None \<Rightarrow> None | Some r \<Rightarrow> remove_spec r key)
     \<and> (no_dangling t \<longrightarrow> no_dangling t')
     \<and> (no_dangling t \<and> (\<forall>key'. key' \<noteq> key \<longrightarrow> \<not> present t key') \<longrightarrow> t' = Trie None)"
proof -
  from assms obtain r m where r: "root t = Some r" and w: "walk r key = Some m"
    and v: "is_value_node m"
    unfolding present_iff by blast
  let ?t' = "Trie (remove_spec r key)"
  have t: "t = Trie (Some r)" using r by (cases t) simp
  have rm: "Remove_key t key = Inr ?t'" using r w v by (simp add: Remove_key_spec)
  have same: "\<forall>T. Get T ?t' key = None" by (simp add: remove_spec_Get_same)
  have other: "\<forall>T key'. key' \<noteq> key \<longrightarrow> Get T ?t' key' = Get T t key'"
    unfolding t by (simp add: remove_spec_Get_other)
  have nd: "no_dangling ?t'" if "no_dangling t"
  proof (cases "remove_spec r key")
    case None
    then show ?thesis by (simp add: no_dangling_def)
  next
    case (Some n')
    from that r have "node_no_dangling r" by (simp add: no_dangling_def)
    then have "node_no_dangling n'" using Some by (rule remove_spec_no_dangling)
    with Some show ?thesis by (simp add: no_dangling_def)
  qed
  have emp: "?t' = Trie None" if "no_dangling t" "\<forall>key'. key' \<noteq> key \<longrightarrow> \<not> present t key'"
  proof (rule no_key_empty)
    show "no_dangling ?t'" using that(1) by (rule nd)
    show "\<forall>key'. \<not> present ?t' key'"
    proof
      fix key'
      show "\<not> present ?t' key'"
      proof (cases "key' = key")
        case True
        with same show ?thesis by (simp add: present_def)
      next
        case False
        with other have "\<forall>T. Get T ?t' key' = Get T t key'" by blast
        moreover from that(2) False have "\<not> present t key'" by blast
        ultimately show ?thesis by (simp add: present_def)
      qed
    qed
  qed
  show ?thesis unfolding rm using same other nd emp r by simp
qed

theorem Remove_key_present_witness:
  "present example_trie ''abcd''
   \<and> (case Remove_key example_trie ''abcd'' of
        Inl e \<Rightarrow> False
      | Inr t' \<Rightarrow>
          Get T_uint32 t' ''abcd'' = None \<and> Get T_uint32 t' ''abc'' = Some (UInt32 1)
        \<and> Get T_uint32 t' ''ab'' = Some (UInt32 2) \<and> no_dangling t')"
proof -
  have p: "present example_trie ''abcd''"
    unfolding present_def example_trie_def
    by (rule exI [of _ T_uint32]) (simp add: trie_defs)
  have nd: "no_dangling example_trie"
    unfolding example_trie_def by (intro Put_no_dangling) (simp add: no_dangling_def)
  have g: "Get T_uint32 example_trie ''abc'' = Some (UInt32 1)"
    "Get T_uint32 example_trie ''ab'' = Some (UInt32 2)"
    by (simp_all add: example_trie_def trie_defs)
  from Remove_key_present [OF p] nd g p show ?thesis
    by (auto split: sum.splits)
qed

text \<open>
  C2 at the trie that holds only \<open>"ab"\<close>. The keys \<open>"a"\<close> and \<open>""\<close> are not present, but
  their paths exist. \<open>Remove("a")\<close> replaces the node of \<open>"a"\<close> by an empty node and the
  key \<open>"ab"\<close> is lost; \<open>Remove("")\<close> returns the empty trie; and \<open>Remove\<close> on the empty
  trie goes through the null root.
\<close>

theorem Remove_key_absent_prefix:
  "\<not> present (Put (Trie None) ''ab'' (UInt32 1)) ''a''
   \<and> \<not> present (Put (Trie None) ''ab'' (UInt32 1)) ''''
   \<and> Get T_uint32 (Put (Trie None) ''ab'' (UInt32 1)) ''ab'' = Some (UInt32 1)
   \<and> (case Remove_key (Put (Trie None) ''ab'' (UInt32 1)) ''a'' of
        Inl e \<Rightarrow> False
      | Inr t' \<Rightarrow> Get T_uint32 t' ''ab'' = None)
   \<and> Remove_key (Put (Trie None) ''ab'' (UInt32 1)) '''' = Inr (Trie None)
   \<and> Remove_key (Trie None) ''a'' = Inl NullPointer"
  by (simp add: trie_defs present_def)

text \<open>
  C9 at the trie built by \<open>Put("ab", 1)\<close> and \<open>Remove("a")\<close> from the empty trie: the
  node of \<open>"a"\<close> has neither children nor a value.
\<close>

theorem Remove_key_leaves_dangling_node:
  "(case Remove_key (Put (Trie None) ''ab'' (UInt32 1)) ''a'' of
      Inl e \<Rightarrow> False
    | Inr t' \<Rightarrow>
        trie_reachable t'
      \<and> (case root t' of None \<Rightarrow> False | Some r \<Rightarrow> walk r ''a'' = Some (TrieNode Map.empty None))
      \<and> \<not> no_dangling t')"
proof -
  let ?t = "Put (Trie None) ''ab'' (UInt32 1)"
  let ?t' = "Trie (Some (TrieNode [CHR ''a'' \<mapsto> TrieNode Map.empty None] None))"
  have rm: "Remove_key ?t ''a'' = Inr ?t'"
    by (simp add: trie_defs)
  have "trie_reachable ?t" by (intro trie_reachable.intros)
  then have reach: "trie_reachable ?t'" using rm by (rule reach_Remove)
  have w: "walk (TrieNode [CHR ''a'' \<mapsto> TrieNode Map.empty None] None) ''a'' = Some (TrieNode Map.empty None)"
    by simp
  have "\<not> node_no_dangling (TrieNode [CHR ''a'' \<mapsto> TrieNode Map.empty None] None)"
    unfolding node_no_dangling_def using w
    by (metis TrieNode.sel children_empty_def is_value_node_def)
  then have "\<not> no_dangling ?t'" by (simp add: no_dangling_def)
  with reach w show ?thesis unfolding rm by simp
qed

subsection \<open>Put on the store\<close>

lemmas store_defs = Put_store_def alloc_def set_children_def set_child_def Get_store_def
  put_finish_def

lemma take_set_children: "n \<le> a \<Longrightarrow> take n (set_children h a cs) = take n h"
  by (simp add: set_children_def)

lemma take_set_child: "n \<le> a \<Longrightarrow> take n (set_child h a c b) = take n h"
  by (simp add: set_child_def take_set_children)

lemma length_set_children [simp]: "length (set_children h a cs) = length h"
  by (simp add: set_children_def)

lemma length_set_child [simp]: "length (set_child h a c b) = length h"
  by (simp add: set_child_def)

lemma chain_loop_frame:
  "chain_loop h node key = (h', r) \<Longrightarrow> n \<le> length h \<Longrightarrow> take n h' = take n h \<and> length h \<le> length h'"
proof (induction key arbitrary: h node)
  case Nil
  then show ?case by simp
next
  case (Cons c cs)
  let ?h1 = "h @ [\<lparr>cell_children = [c \<mapsto> node], cell_value = None\<rparr>]"
  from Cons.prems(1) have "chain_loop ?h1 (length h) cs = (h', r)"
    by (simp add: alloc_def)
  from Cons.IH [OF this] Cons.prems(2) show ?case by simp
qed

lemma cow_loop_frame:
  assumes "cow_loop h p pre key = (h', q, pre')" "n \<le> p" "p < length h" "n \<le> pre" "pre < length h"
  shows "take n h' = take n h \<and> length h \<le> length h'
    \<and> n \<le> q \<and> q < length h' \<and> n \<le> pre' \<and> pre' < length h'"
  using assms
proof (induction key arbitrary: h p pre)
  case Nil
  then show ?case by simp
next
  case (Cons c cs)
  define cl where "cl = (case cell_children (h ! p) c of
      Some ch \<Rightarrow> h ! ch | None \<Rightarrow> \<lparr>cell_children = Map.empty, cell_value = None\<rparr>)"
  let ?h2 = "set_child (h @ [cl]) p c (length h)"
  have step: "cow_loop h p pre (c # cs) = cow_loop ?h2 (length h) p cs"
    by (simp add: alloc_def cl_def split: option.splits)
  with Cons.prems(1) have run: "cow_loop ?h2 (length h) p cs = (h', q, pre')" by simp
  have "take n h' = take n ?h2 \<and> length ?h2 \<le> length h'
    \<and> n \<le> q \<and> q < length h' \<and> n \<le> pre' \<and> pre' < length h'"
  proof (rule Cons.IH [OF run])
    show "n \<le> length h" "n \<le> p" using Cons.prems(2,3) by simp_all
    show "length h < length ?h2" "p < length ?h2" using Cons.prems(3) by simp_all
  qed
  moreover have "take n ?h2 = take n h" using Cons.prems(2,3) by (simp add: take_set_child)
  ultimately show ?case by simp
qed

lemma Put_store_take:
  assumes "root_valid h r"
  shows "take (length h) (fst (Put_store h r key v)) = h"
proof -
  let ?node = "\<lparr>cell_children = Map.empty, cell_value = Some v\<rparr>"
  let ?h1 = "h @ [?node]"
  show ?thesis
  proof (cases r)
    case None
    obtain h2 node' where cl: "chain_loop ?h1 (length h) (rev key) = (h2, node')"
      by (cases "chain_loop ?h1 (length h) (rev key)") auto
    from chain_loop_frame [OF cl, of "length h"] have "take (length h) h2 = h" by simp
    with None cl show ?thesis by (simp add: Put_store_def alloc_def)
  next
    case (Some rt)
    show ?thesis
    proof (cases "key = []")
      case True
      with Some show ?thesis by (simp add: Put_store_def alloc_def take_set_children)
    next
      case False
      let ?h2 = "?h1 @ [?h1 ! rt]"
      obtain h3 p pre where cl: "cow_loop ?h2 (Suc (length h)) (Suc (length h)) key = (h3, p, pre)"
        by (cases "cow_loop ?h2 (Suc (length h)) (Suc (length h)) key") auto
      from cow_loop_frame [OF cl, of "length h"]
      have fr: "take (length h) h3 = h" "length h \<le> pre" by simp_all
      have "take (length h) (put_finish h3 p pre (length h) (last key)) = h"
        using fr by (simp add: put_finish_def take_set_child take_set_children)
      with Some False cl show ?thesis by (simp add: Put_store_def alloc_def Let_def)
    qed
  qed
qed

lemma walk_store_frame:
  assumes "store_closed h" "take (length h) h' = h" "a < length h"
  shows "walk_store h' a key = walk_store h a key
    \<and> (\<forall>b. walk_store h a key = Some b \<longrightarrow> b < length h)"
  using assms(3)
proof (induction key arbitrary: a)
  case Nil
  then show ?case by simp
next
  case (Cons c cs)
  have same: "h' ! a = h ! a"
    using Cons.prems assms(2) by (metis nth_take)
  show ?case
  proof (cases "cell_children (h ! a) c")
    case None
    with same show ?thesis by simp
  next
    case (Some b)
    with assms(1) Cons.prems have "b < length h" unfolding store_closed_def by blast
    from Cons.IH [OF this] Some same show ?thesis by simp
  qed
qed


lemma tree_at_frame:
  assumes "tree_at h a n" "take (length h) h' = h"
  shows "tree_at h' a n"
  using assms(1)
proof (induction rule: tree_at.induct)
  case (tree_atI a v cs)
  have len: "length h \<le> length h'"
    using arg_cong [OF assms(2), of length] by simp
  have same: "h' ! a = h ! a" using tree_atI(1) assms(2) by (metis nth_take)
  show ?case
  proof (rule tree_at.intros)
    show "a < length h'" using tree_atI(1) len by simp
    show "cell_value (h' ! a) = v" using same tree_atI(2) by simp
  next
    fix c assume "cell_children (h' ! a) c = None"
    with same tree_atI(3) show "cs c = None" by simp
  next
    fix c b assume "cell_children (h' ! a) c = Some b"
    with same have "cell_children (h ! a) c = Some b" by simp
    from tree_atI(4) [OF this] show "\<exists>n. cs c = Some n \<and> tree_at h' b n" by blast
  qed
qed

lemma tree_at_cell_of: "tree_at h a n \<Longrightarrow> cell_of h (h ! a) n"
  by (erule tree_at.cases) (auto simp: cell_of_def)

lemma tree_at_bound: "tree_at h a n \<Longrightarrow> a < length h"
  by (erule tree_at.cases) simp

lemma cell_of_tree_at:
  assumes "cell_of h0 (h ! a) n" "a < length h" "take (length h0) h = h0"
  shows "tree_at h a n"
proof (cases n)
  case (TrieNode cs v)
  show ?thesis unfolding TrieNode
  proof (rule tree_at.intros)
    show "a < length h" by fact
    show "cell_value (h ! a) = v" using assms(1) TrieNode by (simp add: cell_of_def)
  next
    fix c assume "cell_children (h ! a) c = None"
    with assms(1) TrieNode show "cs c = None" by (simp add: cell_of_def)
  next
    fix c b assume "cell_children (h ! a) c = Some b"
    moreover from assms(1) TrieNode
    have "\<forall>c b. cell_children (h ! a) c = Some b \<longrightarrow> (\<exists>m. cs c = Some m \<and> tree_at h0 b m)"
      by (simp add: cell_of_def)
    ultimately obtain m where "cs c = Some m" "tree_at h0 b m" by blast
    with assms(3) show "\<exists>n. cs c = Some n \<and> tree_at h b n"
      using tree_at_frame by blast
  qed
qed

lemma cell_of_empty_iff: "cell_of h0 x n \<Longrightarrow> cell_children x = Map.empty \<longleftrightarrow> children_empty n"
  unfolding cell_of_def children_empty_def
  by (metis (mono_tags, opaque_lifting) ext not_Some_eq option.distinct(1))

lemma cell_of_new: "cell_of h0 \<lparr>cell_children = Map.empty, cell_value = None\<rparr> new_TrieNode"
  by (simp add: cell_of_def new_TrieNode_def)


lemma tree_at_path_copy:
  assumes x: "cell_of h0 x P" and cell: "h ! p = x\<lparr>cell_children := (cell_children x)(c \<mapsto> b)\<rparr>"
    and p: "p < length h" and b: "tree_at h b T" and fr: "take (length h0) h = h0"
  shows "tree_at h p (TrieNode ((children P)(c \<mapsto> T)) (node_value P))"
proof (rule tree_at.intros)
  show "p < length h" by fact
  show "cell_value (h ! p) = node_value P" using x cell by (simp add: cell_of_def)
next
  fix d assume "cell_children (h ! p) d = None"
  with cell have "d \<noteq> c" "cell_children x d = None" by (auto split: if_splits)
  with x show "((children P)(c \<mapsto> T)) d = None" by (simp add: cell_of_def)
next
  fix d e assume d: "cell_children (h ! p) d = Some e"
  show "\<exists>n. ((children P)(c \<mapsto> T)) d = Some n \<and> tree_at h e n"
  proof (cases "d = c")
    case True
    with d cell b show ?thesis by simp
  next
    case False
    with d cell have "cell_children x d = Some e" by simp
    moreover from x
    have "\<forall>c b. cell_children x c = Some b \<longrightarrow> (\<exists>m. children P c = Some m \<and> tree_at h0 b m)"
      by (simp add: cell_of_def)
    ultimately obtain m where m: "children P d = Some m" "tree_at h0 e m" by blast
    from m(2) fr have "tree_at h e m" by (rule tree_at_frame)
    with m(1) False show ?thesis by simp
  qed
qed

lemma nth_set_children:
  "a < length h \<Longrightarrow> set_children h a cs ! b = (if b = a then (h ! a)\<lparr>cell_children := cs\<rparr> else h ! b)"
  by (simp add: set_children_def)

lemma nth_set_child:
  "a < length h \<Longrightarrow> set_child h a c b ! d =
     (if d = a then (h ! a)\<lparr>cell_children := (cell_children (h ! a))(c \<mapsto> b)\<rparr> else h ! d)"
  by (simp add: set_child_def nth_set_children)

lemma cow_step:
  fixes c :: char and h :: store and P :: TrieNode
  assumes fr: "take (length h0) h = h0" and p: "p < length h" and P: "cell_of h0 (h ! p) P"
  defines "cl \<equiv> (case cell_children (h ! p) c of
      Some ch \<Rightarrow> h ! ch | None \<Rightarrow> \<lparr>cell_children = Map.empty, cell_value = None\<rparr>)"
  defines "N \<equiv> (case children P c of Some ch \<Rightarrow> ch | None \<Rightarrow> new_TrieNode)"
  shows "cow_loop h p pre (c # cs) = cow_loop (set_child (h @ [cl]) p c (length h)) (length h) p cs"
    and "cell_of h0 cl N"
proof -
  show "cow_loop h p pre (c # cs) = cow_loop (set_child (h @ [cl]) p c (length h)) (length h) p cs"
    by (simp add: alloc_def cl_def split: option.splits)
  show "cell_of h0 cl N"
  proof (cases "cell_children (h ! p) c")
    case None
    with P have "children P c = None" by (simp add: cell_of_def)
    with None show ?thesis by (simp add: cl_def N_def cell_of_new)
  next
    case (Some ch)
    moreover from P
    have "\<forall>c b. cell_children (h ! p) c = Some b \<longrightarrow> (\<exists>m. children P c = Some m \<and> tree_at h0 b m)"
      by (simp add: cell_of_def)
    ultimately obtain m where m: "children P c = Some m" "tree_at h0 ch m" by blast
    from m(2) have "ch < length h0" by (rule tree_at_bound)
    with fr have "h ! ch = h0 ! ch" by (metis nth_take)
    with tree_at_cell_of [OF m(2)] Some m(1) show ?thesis by (simp add: cl_def N_def)
  qed
qed


lemma put_path_Cons2:
  "cs \<noteq> [] \<Longrightarrow> put_path P (c # cs) v =
     TrieNode ((children P)(c \<mapsto> put_path (case children P c of Some ch \<Rightarrow> ch | None \<Rightarrow> new_TrieNode) cs v))
       (node_value P)"
  by (cases cs) (simp_all add: Let_def)

lemma cow_refines:
  assumes "key \<noteq> []"
    and "take (length h0) h = h0"
    and "length h0 \<le> p" "p < length h" "p \<noteq> node"
    and "length h0 \<le> node" "node < length h"
    and "h ! node = \<lparr>cell_children = Map.empty, cell_value = Some v\<rparr>"
    and "cell_of h0 (h ! p) P"
    and "cow_loop h p pre key = (h3, q, pre')"
  shows "tree_at (put_finish h3 q pre' node (last key)) p (put_path P key v)
    \<and> take (length h0) (put_finish h3 q pre' node (last key)) = h0
    \<and> length h \<le> length (put_finish h3 q pre' node (last key))
    \<and> (\<forall>a. a < length h \<longrightarrow> a \<noteq> p \<longrightarrow> a \<noteq> node
          \<longrightarrow> put_finish h3 q pre' node (last key) ! a = h ! a)"
  using assms
proof (induction key arbitrary: h p pre P)
  case Nil
  then show ?case by simp
next
  case (Cons c cs)
  note fr = Cons.prems(2) and p = Cons.prems(3,4,5) and node = Cons.prems(6,7,8)
    and P = Cons.prems(9) and run = Cons.prems(10)
  define x where "x = h ! p"
  define cl where "cl = (case cell_children (h ! p) c of
      Some ch \<Rightarrow> h ! ch | None \<Rightarrow> \<lparr>cell_children = Map.empty, cell_value = None\<rparr>)"
  define N where "N = (case children P c of Some ch \<Rightarrow> ch | None \<Rightarrow> new_TrieNode)"
  define h2 where "h2 = set_child (h @ [cl]) p c (length h)"
  have step: "cow_loop h p pre (c # cs) = cow_loop h2 (length h) p cs"
    unfolding h2_def cl_def by (rule cow_step(1) [OF fr p(2) P])
  have clN: "cell_of h0 cl N"
    unfolding cl_def N_def by (rule cow_step(2) [OF fr p(2) P])
  have len2: "length h2 = Suc (length h)" by (simp add: h2_def)
  have h2nth: "\<And>a. h2 ! a = (if a = p then x\<lparr>cell_children := (cell_children x)(c \<mapsto> length h)\<rparr>
      else (h @ [cl]) ! a)"
    using p(2) by (simp add: h2_def nth_set_child nth_append x_def)
  have h2p: "h2 ! p = x\<lparr>cell_children := (cell_children x)(c \<mapsto> length h)\<rparr>"
    by (simp add: h2nth)
  have h2new: "h2 ! length h = cl" using p(2) by (simp add: h2nth)
  have h2node: "h2 ! node = \<lparr>cell_children = Map.empty, cell_value = Some v\<rparr>"
    using node p(3) by (simp add: h2nth nth_append)
  have h2old: "\<And>a. a < length h \<Longrightarrow> a \<noteq> p \<Longrightarrow> h2 ! a = h ! a"
    by (simp add: h2nth nth_append)
  have fr2: "take (length h0) h2 = h0"
    using fr p(1,2) by (simp add: h2_def take_set_child)
  have xP: "cell_of h0 x P" using P by (simp add: x_def)
  from run step have run2: "cow_loop h2 (length h) p cs = (h3, q, pre')" by simp
  show ?case
  proof (cases "cs = []")
    case True
    with run2 have res: "h3 = h2" "q = length h" "pre' = p" by simp_all
    define h4 where "h4 = (if cell_children cl \<noteq> Map.empty then set_children h2 node (cell_children cl) else h2)"
    define h5 where "h5 = set_child h4 p c node"
    have fin: "put_finish h3 q pre' node (last (c # cs)) = h5"
      using True by (simp add: put_finish_def res h2new h4_def h5_def)
    have len4: "length h4 = Suc (length h)" by (simp add: h4_def len2)
    have nlt: "node < length h2" using node(2) len2 by simp
    have h4nth: "\<And>a. h4 ! a = (if a = node then \<lparr>cell_children = cell_children cl, cell_value = Some v\<rparr>
        else h2 ! a)"
      using nlt h2node by (auto simp: h4_def nth_set_children)
    have plt4: "p < length h4" using p(2) len4 by simp
    have h5nth: "\<And>a. h5 ! a = (if a = p then x\<lparr>cell_children := (cell_children x)(c \<mapsto> node)\<rparr>
        else h4 ! a)"
      using plt4 p(3) by (simp add: h5_def nth_set_child h4nth h2p)
    have len5: "length h5 = Suc (length h)" by (simp add: h5_def len4)
    have fr5: "take (length h0) h5 = h0"
      using fr2 p(1) node(1) by (simp add: h5_def h4_def take_set_child take_set_children)
    have h5node: "h5 ! node = \<lparr>cell_children = cell_children cl, cell_value = Some v\<rparr>"
      using p(3) by (simp add: h5nth h4nth)
    let ?T = "TrieNode (if \<not> children_empty N then children N else Map.empty) (Some v)"
    have "cell_of h0 (h5 ! node) ?T"
      using clN cell_of_empty_iff [OF clN]
      by (auto simp: h5node cell_of_def children_empty_def)
    then have tn: "tree_at h5 node ?T"
      using node(2) len5 fr5 by (intro cell_of_tree_at) simp_all
    have tp: "tree_at h5 p (TrieNode ((children P)(c \<mapsto> ?T)) (node_value P))"
      using xP _ _ tn fr5 by (rule tree_at_path_copy) (use p(2) len5 in \<open>simp_all add: h5nth\<close>)
    have pp: "put_path P (c # cs) v = TrieNode ((children P)(c \<mapsto> ?T)) (node_value P)"
      using True by (simp add: N_def Let_def)
    have old: "\<forall>a. a < length h \<longrightarrow> a \<noteq> p \<longrightarrow> a \<noteq> node \<longrightarrow> h5 ! a = h ! a"
      by (simp add: h5nth h4nth h2old)
    show ?thesis unfolding fin pp using tp fr5 len5 old by simp
  next
    case False
    have last: "last (c # cs) = last cs" using False by simp
    let ?h5 = "put_finish h3 q pre' node (last cs)"
    have ih: "tree_at ?h5 (length h) (put_path N cs v)
      \<and> take (length h0) ?h5 = h0
      \<and> length h2 \<le> length ?h5
      \<and> (\<forall>a. a < length h2 \<longrightarrow> a \<noteq> length h \<longrightarrow> a \<noteq> node \<longrightarrow> ?h5 ! a = h2 ! a)"
    proof (rule Cons.IH [OF False fr2 _ _ _ _ _ h2node _ run2])
      show "length h0 \<le> length h" using p(1,2) by simp
      show "length h < length h2" by (simp add: len2)
      show "length h \<noteq> node" using node(2) by simp
      show "length h0 \<le> node" by (rule node(1))
      show "node < length h2" using node(2) len2 by simp
      show "cell_of h0 (h2 ! length h) N" using clN by (simp add: h2new)
    qed
    then have t: "tree_at ?h5 (length h) (put_path N cs v)" and fr5: "take (length h0) ?h5 = h0"
      and len5: "length h2 \<le> length ?h5"
      and old5: "\<And>a. a < length h2 \<Longrightarrow> a \<noteq> length h \<Longrightarrow> a \<noteq> node \<Longrightarrow> ?h5 ! a = h2 ! a"
      by blast+
    have h5p: "?h5 ! p = x\<lparr>cell_children := (cell_children x)(c \<mapsto> length h)\<rparr>"
      using old5 [of p] p(2,3) len2 h2p by simp
    have tp: "tree_at ?h5 p (TrieNode ((children P)(c \<mapsto> put_path N cs v)) (node_value P))"
      using xP h5p _ t fr5 by (rule tree_at_path_copy) (use p(2) len2 len5 in simp)
    have pp: "put_path P (c # cs) v = TrieNode ((children P)(c \<mapsto> put_path N cs v)) (node_value P)"
      using False by (simp add: put_path_Cons2 N_def)
    have old: "\<forall>a. a < length h \<longrightarrow> a \<noteq> p \<longrightarrow> a \<noteq> node \<longrightarrow> ?h5 ! a = h ! a"
      using old5 h2old len2 by simp
    show ?thesis unfolding last pp using tp fr5 len5 len2 old by simp
  qed
qed


lemma length_put_finish [simp]: "length (put_finish h p pre node c) = length h"
  by (simp add: put_finish_def)

lemma chain_loop_tree:
  assumes "tree_at h node T" "chain_loop h node cs = (h', r)"
  shows "tree_at h' r (foldl (\<lambda>t c. TrieNode [c \<mapsto> t] None) T cs)"
  using assms
proof (induction cs arbitrary: h node T)
  case Nil
  then show ?case by simp
next
  case (Cons c cs)
  let ?h1 = "h @ [\<lparr>cell_children = [c \<mapsto> node], cell_value = None\<rparr>]"
  have fr: "take (length h) ?h1 = h" by simp
  have tn: "tree_at ?h1 node T" using Cons.prems(1) fr by (rule tree_at_frame)
  have "tree_at ?h1 (length h) (TrieNode [c \<mapsto> T] None)"
  proof (rule tree_at.intros)
    show "length h < length ?h1" by simp
    show "cell_value (?h1 ! length h) = None" by simp
  next
    fix d assume "cell_children (?h1 ! length h) d = None"
    then show "[c \<mapsto> T] d = None" by (simp split: if_splits)
  next
    fix d b assume "cell_children (?h1 ! length h) d = Some b"
    then have "d = c" "b = node" by (auto split: if_splits)
    with tn show "\<exists>n. [c \<mapsto> T] d = Some n \<and> tree_at ?h1 b n" by simp
  qed
  moreover from Cons.prems(2) have "chain_loop ?h1 (length h) cs = (h', r)"
    by (simp add: alloc_def)
  ultimately have "tree_at h' r (foldl (\<lambda>t c. TrieNode [c \<mapsto> t] None) (TrieNode [c \<mapsto> T] None) cs)"
    by (rule Cons.IH)
  then show ?case by (simp only: foldl_Cons)
qed

lemma Put_store_refines_new:
  assumes t: "trie_at h r t"
  shows "trie_at (fst (Put_store h r key v)) (snd (Put_store h r key v)) (Put t key v)"
proof -
  let ?leaf = "\<lparr>cell_children = Map.empty, cell_value = Some v\<rparr>"
  let ?h1 = "h @ [?leaf]"
  have fr1: "take (length h) ?h1 = h" by simp
  show ?thesis
  proof (cases r)
    case None
    with t have t0: "t = Trie None" by (simp add: trie_at_def)
    obtain h2 node' where cl: "chain_loop ?h1 (length h) (rev key) = (h2, node')"
      by (cases "chain_loop ?h1 (length h) (rev key)") auto
    have "tree_at ?h1 (length h) (TrieNode Map.empty (Some v))"
      by (rule tree_at.intros) simp_all
    from chain_loop_tree [OF this cl]
    have "tree_at h2 node' (foldr (\<lambda>c node. TrieNode [c \<mapsto> node] None) key (TrieNode Map.empty (Some v)))"
      by (simp add: foldr_conv_foldl)
    with None t0 cl show ?thesis
      by (simp add: Put_store_def alloc_def Put_def trie_at_def)
  next
    case (Some a)
    with t obtain n where n: "t = Trie (Some n)" "tree_at h a n" by (auto simp: trie_at_def)
    have a: "a < length h" using n(2) by (rule tree_at_bound)
    have cn: "cell_of h (h ! a) n" using n(2) by (rule tree_at_cell_of)
    show ?thesis
    proof (cases "key = []")
      case True
      let ?h' = "set_children ?h1 (length h) (cell_children (?h1 ! a))"
      have cell: "?h' ! length h = \<lparr>cell_children = cell_children (h ! a), cell_value = Some v\<rparr>"
        using a by (simp add: nth_set_children nth_append)
      have "cell_of h (?h' ! length h) (TrieNode (children n) (Some v))"
        unfolding cell using cn by (simp add: cell_of_def)
      then have "tree_at ?h' (length h) (TrieNode (children n) (Some v))"
        by (rule cell_of_tree_at) (simp_all add: take_set_children)
      with Some True n(1) show ?thesis
        by (simp add: Put_store_def alloc_def Put_def trie_at_def)
    next
      case False
      let ?h2 = "?h1 @ [?h1 ! a]"
      let ?p0 = "Suc (length h)"
      obtain h3 q pre' where cl: "cow_loop ?h2 ?p0 ?p0 key = (h3, q, pre')"
        by (cases "cow_loop ?h2 ?p0 ?p0 key") auto
      have "tree_at (put_finish h3 q pre' (length h) (last key)) ?p0 (put_path n key v)
        \<and> take (length h) (put_finish h3 q pre' (length h) (last key)) = h
        \<and> length ?h2 \<le> length (put_finish h3 q pre' (length h) (last key))
        \<and> (\<forall>b. b < length ?h2 \<longrightarrow> b \<noteq> ?p0 \<longrightarrow> b \<noteq> length h
              \<longrightarrow> put_finish h3 q pre' (length h) (last key) ! b = ?h2 ! b)"
      proof (rule cow_refines [OF False _ _ _ _ _ _ _ _ cl])
        show "take (length h) ?h2 = h" by simp
        show "length h \<le> ?p0" "?p0 < length ?h2" "?p0 \<noteq> length h" "length h \<le> length h"
          "length h < length ?h2" by simp_all
        show "?h2 ! length h = ?leaf" by (simp add: nth_append)
        show "cell_of h (?h2 ! ?p0) n" using cn a by (simp add: nth_append)
      qed
      then have "tree_at (put_finish h3 q pre' (length h) (last key)) ?p0 (put_path n key v)"
        by blast
      with Some False n(1) cl show ?thesis
        by (simp add: Put_store_def alloc_def Put_def trie_at_def Let_def)
    qed
  qed
qed

lemma Put_store_refines_old:
  assumes t: "trie_at h r t"
  shows "trie_at (fst (Put_store h r key v)) r t"
proof (cases r)
  case None
  with t show ?thesis by (simp add: trie_at_def)
next
  case (Some a)
  with t obtain n where n: "t = Trie (Some n)" "tree_at h a n" by (auto simp: trie_at_def)
  have "root_valid h r" using Some tree_at_bound [OF n(2)] by (simp add: root_valid_def)
  then have "take (length h) (fst (Put_store h r key v)) = h" by (rule Put_store_take)
  with n(2) have "tree_at (fst (Put_store h r key v)) a n" by (rule tree_at_frame)
  with Some n(1) show ?thesis by (simp add: trie_at_def)
qed

lemma walk_store_tree:
  "tree_at h a n \<Longrightarrow>
     (case walk_store h a key of
        None \<Rightarrow> walk n key = None
      | Some b \<Rightarrow> (\<exists>m. walk n key = Some m \<and> tree_at h b m))"
proof (induction key arbitrary: a n)
  case Nil
  then show ?case by simp
next
  case (Cons c cs)
  from Cons.prems have cn: "cell_of h (h ! a) n" by (rule tree_at_cell_of)
  show ?case
  proof (cases "cell_children (h ! a) c")
    case None
    with cn have "children n c = None" by (simp add: cell_of_def)
    with None show ?thesis by simp
  next
    case (Some b)
    moreover from cn
    have "\<forall>c b. cell_children (h ! a) c = Some b \<longrightarrow> (\<exists>m. children n c = Some m \<and> tree_at h b m)"
      by (simp add: cell_of_def)
    ultimately obtain m where m: "children n c = Some m" "tree_at h b m" by blast
    from Cons.IH [OF m(2)] Some m(1) show ?thesis by (simp split: option.splits)
  qed
qed

lemma Get_store_refines:
  assumes "trie_at h r t"
  shows "Get_store T h r key = Get T t key"
proof (cases r)
  case None
  with assms show ?thesis by (simp add: trie_at_def Get_store_def Get_def)
next
  case (Some a)
  with assms obtain n where n: "t = Trie (Some n)" "tree_at h a n" by (auto simp: trie_at_def)
  show ?thesis
  proof (cases "walk_store h a key")
    case None
    with walk_store_tree [OF n(2), of key] have "walk n key = None" by simp
    with None Some n(1) show ?thesis by (simp add: Get_store_def Get_def)
  next
    case (Some b)
    with walk_store_tree [OF n(2), of key] obtain m where m: "walk n key = Some m" "tree_at h b m"
      by auto
    from m(2) have "cell_value (h ! b) = node_value m"
      using tree_at_cell_of by (auto simp: cell_of_def)
    with Some m(1) \<open>r = Some a\<close> n(1) show ?thesis by (simp add: Get_store_def Get_def)
  qed
qed


text \<open>
  C1. For every trie, key and value, \<open>Get<T>\<close> at the key on the trie returned by \<open>Put\<close>
  yields the value, \<open>T\<close> being the type of the value: for tries as values, and for the
  store and root \<open>Put\<close> returns when it is called on a root that stands for a trie.
\<close>

theorem Get_Put:
  "Get (type_of v) (Put t key v) key = Some v
   \<and> (trie_at h r t \<longrightarrow>
        Get_store (type_of v) (fst (Put_store h r key v)) (snd (Put_store h r key v)) key = Some v)"
proof (intro conjI impI)
  show "Get (type_of v) (Put t key v) key = Some v" by (rule Get_Put_value)
next
  assume "trie_at h r t"
  then have "trie_at (fst (Put_store h r key v)) (snd (Put_store h r key v)) (Put t key v)"
    by (rule Put_store_refines_new)
  then have "Get_store (type_of v) (fst (Put_store h r key v)) (snd (Put_store h r key v)) key
      = Get (type_of v) (Put t key v) key"
    by (rule Get_store_refines)
  then show "Get_store (type_of v) (fst (Put_store h r key v)) (snd (Put_store h r key v)) key = Some v"
    by (simp add: Get_Put_value)
qed

theorem Get_Put_witness:
  "trie_at [] None (Trie None)
   \<and> Get T_uint32 (Put (Trie None) ''ab'' (UInt32 1)) ''ab'' = Some (UInt32 1)
   \<and> Get_store T_uint32 (fst (Put_store [] None ''ab'' (UInt32 1)))
        (snd (Put_store [] None ''ab'' (UInt32 1))) ''ab'' = Some (UInt32 1)"
proof -
  have t: "trie_at [] None (Trie None)" by (simp add: trie_at_def)
  from Get_Put [of "UInt32 1" "Trie None" "''ab''" "[]" None] t show ?thesis by simp
qed

text \<open>
  C3. \<open>Put\<close> writes only to nodes it has allocated itself: every node of the store it
  was called on is the same afterwards, and \<open>Get<T>\<close> on the root of the old trie gives,
  for every key and type, what it gave before the call. A root that stood for a trie
  before the call stands for the same trie after it.
\<close>

theorem Put_store_old_trie_unchanged:
  assumes "store_closed h" and "root_valid h r"
  shows "take (length h) (fst (Put_store h r key v)) = h
    \<and> (\<forall>T key'. Get_store T (fst (Put_store h r key v)) r key' = Get_store T h r key')
    \<and> (\<forall>t. trie_at h r t \<longrightarrow> trie_at (fst (Put_store h r key v)) r t)"
proof (intro conjI allI impI)
  show tk: "take (length h) (fst (Put_store h r key v)) = h"
    using assms(2) by (rule Put_store_take)
  fix T key'
  show "Get_store T (fst (Put_store h r key v)) r key' = Get_store T h r key'"
  proof (cases r)
    case None
    then show ?thesis by (simp add: Get_store_def)
  next
    case (Some a)
    with assms(2) have a: "a < length h" by (simp add: root_valid_def)
    let ?h' = "fst (Put_store h r key v)"
    from walk_store_frame [OF assms(1) tk a, of key']
    have w: "walk_store ?h' a key' = walk_store h a key'"
      and b: "\<And>b. walk_store h a key' = Some b \<Longrightarrow> b < length h" by auto
    show ?thesis
    proof (cases "walk_store h a key'")
      case None
      with w Some show ?thesis by (simp add: Get_store_def)
    next
      case (Some n)
      then have "n < length h" by (rule b)
      with tk have "?h' ! n = h ! n" by (metis nth_take)
      with w Some \<open>r = Some a\<close> show ?thesis by (simp add: Get_store_def)
    qed
  qed
next
  fix t assume "trie_at h r t"
  then show "trie_at (fst (Put_store h r key v)) r t" by (rule Put_store_refines_old)
qed

text \<open>
  The store and root after \<open>Put("ab", 1)\<close> on the empty trie, and \<open>Put("a", 2)\<close> on them:
  the old root still finds \<open>"ab"\<close> and does not find \<open>"a"\<close>.
\<close>

theorem Put_store_old_trie_unchanged_witness:
  "store_closed (fst (Put_store [] None ''ab'' (UInt32 1)))
   \<and> root_valid (fst (Put_store [] None ''ab'' (UInt32 1))) (snd (Put_store [] None ''ab'' (UInt32 1)))
   \<and> Get_store T_uint32
        (fst (Put_store (fst (Put_store [] None ''ab'' (UInt32 1)))
               (snd (Put_store [] None ''ab'' (UInt32 1))) ''a'' (UInt32 2)))
        (snd (Put_store [] None ''ab'' (UInt32 1))) ''a'' = None
   \<and> Get_store T_uint32
        (fst (Put_store (fst (Put_store [] None ''ab'' (UInt32 1)))
               (snd (Put_store [] None ''ab'' (UInt32 1))) ''a'' (UInt32 2)))
        (snd (Put_store [] None ''ab'' (UInt32 1))) ''ab'' = Some (UInt32 1)
   \<and> Get_store T_uint32
        (fst (Put_store (fst (Put_store [] None ''ab'' (UInt32 1)))
               (snd (Put_store [] None ''ab'' (UInt32 1))) ''a'' (UInt32 2)))
        (snd (Put_store (fst (Put_store [] None ''ab'' (UInt32 1)))
               (snd (Put_store [] None ''ab'' (UInt32 1))) ''a'' (UInt32 2))) ''a'' = Some (UInt32 2)"
proof -
  let ?h = "fst (Put_store [] None ''ab'' (UInt32 1))"
  let ?r = "snd (Put_store [] None ''ab'' (UInt32 1))"
  have st: "?h = [\<lparr>cell_children = Map.empty, cell_value = Some (UInt32 1)\<rparr>,
                  \<lparr>cell_children = [CHR ''b'' \<mapsto> 0], cell_value = None\<rparr>,
                  \<lparr>cell_children = [CHR ''a'' \<mapsto> 1], cell_value = None\<rparr>]"
    and r: "?r = Some 2"
    by (simp_all add: store_defs Let_def)
  have closed: "store_closed ?h"
    unfolding st store_closed_def by (auto simp: less_Suc_eq nth_Cons' split: if_splits)
  have valid: "root_valid ?h ?r" unfolding st r by (simp add: root_valid_def)
  have old: "Get_store T_uint32 ?h ?r ''a'' = None" "Get_store T_uint32 ?h ?r ''ab'' = Some (UInt32 1)"
    unfolding st r by (simp_all add: Get_store_def)
  have new: "Get_store T_uint32 (fst (Put_store ?h ?r ''a'' (UInt32 2)))
        (snd (Put_store ?h ?r ''a'' (UInt32 2))) ''a'' = Some (UInt32 2)"
    unfolding st r by (simp add: store_defs Let_def)
  from Put_store_old_trie_unchanged [OF closed valid, of "''a''" "UInt32 2"] old new closed valid
  show ?thesis by simp
qed


end
